theory Spec2Isabelle
  imports Main "HOL-Library.Word" "HOL-Library.Sublist" "HOL-Library.Multiset"
begin

section \<open>Data model of the U8 archive library (u8.py)\<close>

text \<open>
  Bytes are 8-bit words. Python's unbounded integers are \<open>nat\<close> or \<open>int\<close>. A Python
  \<open>dict\<close> is an association list in insertion order; the operations below keep its keys
  distinct, as Python does. Exceptions are values of \<open>error\<close>, one constructor per
  exception class that the code can raise.
\<close>

type_synonym byte = "8 word"

datatype error =
    AssertionError | ValueError | KeyError | RecursionError | AttributeError | TypeError
  | StructError | OverflowError | IndexError | UnicodeDecodeError | OSError

text \<open>\<open>class ArcFile\<close>: a name and a byte buffer.\<close>

datatype arcfile = ArcFile (af_name: string) (af_data: "byte list")

text \<open>A value stored in \<open>Arc.files\<close>: a nested \<open>dict\<close> (directory) or an \<open>ArcFile\<close>.\<close>

datatype node = Dir "(string \<times> node) list" | File arcfile

type_synonym dict = "(string \<times> node) list"

subsection \<open>Python dict operations on insertion-ordered association lists\<close>

text \<open>\<open>d[k] = v\<close>: an existing key keeps its position, a new key goes to the end.\<close>

fun dict_set :: "('k \<times> 'v) list \<Rightarrow> 'k \<Rightarrow> 'v \<Rightarrow> ('k \<times> 'v) list" where
  "dict_set [] k v = [(k, v)]"
| "dict_set ((k', v') # d) k v =
     (if k' = k then (k', v) # d else (k', v') # dict_set d k v)"

text \<open>\<open>k in d\<close>.\<close>

definition dict_contains :: "'k \<Rightarrow> ('k \<times> 'v) list \<Rightarrow> bool" where
  "dict_contains k d = (k \<in> set (map fst d))"

text \<open>\<open>del d[k]\<close> and \<open>d.pop(k)\<close> (the callers check \<open>k in d\<close> first).\<close>

definition dict_del :: "('k \<times> 'v) list \<Rightarrow> 'k \<Rightarrow> ('k \<times> 'v) list" where
  "dict_del d k = filter (\<lambda>kv. fst kv \<noteq> k) d"

text \<open>\<open>keys.index(k)\<close>.\<close>

fun list_index :: "'a list \<Rightarrow> 'a \<Rightarrow> nat option" where
  "list_index [] k = None"
| "list_index (x # xs) k =
     (if x = k then Some 0 else map_option Suc (list_index xs k))"

text \<open>
  The invariant of Python's dicts that the association lists must share: at every level the
  keys are pairwise different.
\<close>

fun wf_node :: "node \<Rightarrow> bool" where
  "wf_node (File f) = True"
| "wf_node (Dir d) = (distinct (map fst d) \<and> (\<forall>kv \<in> set d. wf_node (snd kv)))"

subsection \<open>The archive object\<close>

record arc =
  mod_count :: int
  flat_file_struct :: "(string \<times> arcfile option) list"
  only_files :: "(string \<times> arcfile option) list"
  created_manually :: bool
  arc_name :: string
  files :: dict

text \<open>\<open>Arc()\<close> without data.\<close>

definition new_arc :: arc where
  "new_arc = \<lparr> mod_count = 0, flat_file_struct = [], only_files = [],
       created_manually = True, arc_name = ''ARC_FILE'', files = [] \<rparr>"

subsection \<open>Paths\<close>

text \<open>A path argument is \<open>None\<close>, a \<open>str\<close> or a \<open>list[str]\<close>.\<close>

datatype path_arg = PNone | PStr string | PList "string list"

text \<open>\<open>s.split(sep)\<close> for a one-character separator.\<close>

fun split_on :: "char \<Rightarrow> string \<Rightarrow> string list" where
  "split_on sep [] = [[]]"
| "split_on sep (c # cs) =
     (if c = sep then [] # split_on sep cs
      else (case split_on sep cs of [] \<Rightarrow> [[c]] | w # ws \<Rightarrow> (c # w) # ws))"

text \<open>\<open>[seg for seg in path.split("/") if seg]\<close>.\<close>

definition path_segments :: "string \<Rightarrow> string list" where
  "path_segments s = filter (\<lambda>seg. seg \<noteq> []) (split_on (CHR ''/'') s)"

text \<open>
  The normalisation at the head of \<open>rename\<close>, \<open>delete\<close> and \<open>move\<close>: a string is split,
  a list is taken as it is; \<open>None\<close> is falsy, like the empty list, in the test that follows.
\<close>

definition to_segments :: "path_arg \<Rightarrow> string list" where
  "to_segments p = (case p of PNone \<Rightarrow> [] | PStr s \<Rightarrow> path_segments s | PList l \<Rightarrow> l)"

text \<open>
  A reference to a dict inside the tree is represented by the list of keys that leads to
  it from \<open>self.files\<close>. \<open>get_dir\<close> reads through such a reference and \<open>update_dir\<close>
  mutates the dict it points to, leaving every other position as it is.
\<close>

fun get_dir :: "string list \<Rightarrow> dict \<Rightarrow> dict option" where
  "get_dir [] d = Some d"
| "get_dir (k # ks) d =
     (case map_of d k of Some (Dir sub) \<Rightarrow> get_dir ks sub | _ \<Rightarrow> None)"

fun update_dir :: "string list \<Rightarrow> (dict \<Rightarrow> dict) \<Rightarrow> dict \<Rightarrow> dict" where
  "update_dir [] f d = f d"
| "update_dir (k # ks) f d =
     (case map_of d k of
        Some (Dir sub) \<Rightarrow> dict_set d k (Dir (update_dir ks f sub))
      | _ \<Rightarrow> d)"

section \<open>Path mutation API\<close>

text \<open>
  The loop of \<open>_get_or_create_directory\<close>, started at \<open>current_dict\<close>. The first component
  is the exception raised or the directory returned, the second is \<open>current_dict\<close> after
  the in-place creations.
\<close>

fun get_or_create_loop :: "string list \<Rightarrow> dict \<Rightarrow> (error + dict) \<times> dict" where
  "get_or_create_loop [] current_dict = (Inr current_dict, current_dict)"
| "get_or_create_loop (seg # path) current_dict =
     (case map_of current_dict seg of
        None \<Rightarrow>
          (let (r, sub) = get_or_create_loop path []
           in (r, dict_set current_dict seg (Dir sub)))
      | Some (File f) \<Rightarrow> (Inl ValueError, current_dict)
      | Some (Dir sub) \<Rightarrow>
          (let (r, sub') = get_or_create_loop path sub
           in (r, dict_set current_dict seg (Dir sub'))))"

definition get_or_create_directory :: "path_arg \<Rightarrow> dict \<Rightarrow> (error + dict) \<times> dict" where
  "get_or_create_directory path fs =
     (case path of
        PNone \<Rightarrow> (Inr fs, fs)
      | PStr s \<Rightarrow> get_or_create_loop (path_segments s) fs
      | PList l \<Rightarrow> get_or_create_loop l fs)"

text \<open>The key path of the directory that \<open>_get_or_create_directory\<close> returns.\<close>

definition target_path :: "path_arg \<Rightarrow> string list" where
  "target_path path = to_segments path"

definition mkdir :: "path_arg \<Rightarrow> arc \<Rightarrow> error option \<times> arc" where
  "mkdir path a =
     (case get_or_create_directory path (files a) of
        (Inl e, fs) \<Rightarrow> (Some e, a\<lparr>files := fs\<rparr>)
      | (Inr _, fs) \<Rightarrow> (None, a\<lparr>files := fs, mod_count := mod_count a + 1\<rparr>))"

definition append_internal :: "string \<Rightarrow> arcfile \<Rightarrow> path_arg \<Rightarrow> arc \<Rightarrow> error option \<times> arc" where
  "append_internal filename file path a =
     (case get_or_create_directory path (files a) of
        (Inl e, fs) \<Rightarrow> (Some e, a\<lparr>files := fs\<rparr>)
      | (Inr target_dir, fs) \<Rightarrow>
          if dict_contains filename target_dir then (Some KeyError, a\<lparr>files := fs\<rparr>)
          else (None, a\<lparr>files := update_dir (target_path path)
                                   (\<lambda>d. dict_set d filename (File file)) fs,
                         mod_count := mod_count a + 1\<rparr>))"

text \<open>\<open>append_file\<close> with \<open>raw_data=True\<close> (the default): the bytes are used as given.\<close>

definition append_file :: "string \<Rightarrow> byte list \<Rightarrow> path_arg \<Rightarrow> arc \<Rightarrow> error option \<times> arc" where
  "append_file filename file path a = append_internal filename (ArcFile filename file) path a"

text \<open>
  The descent over the parent keys in \<open>rename\<close>, \<open>delete\<close> and \<open>move\<close>: a missing key is a
  \<open>KeyError\<close>, a key that is not a dict is a \<open>ValueError\<close>.
\<close>

fun walk_parents :: "string list \<Rightarrow> dict \<Rightarrow> error + dict" where
  "walk_parents [] current_dict = Inr current_dict"
| "walk_parents (key # parents) current_dict =
     (case map_of current_dict key of
        None \<Rightarrow> Inl KeyError
      | Some (File f) \<Rightarrow> Inl ValueError
      | Some (Dir sub) \<Rightarrow> walk_parents parents sub)"

text \<open>The loop of \<open>_rename_dict_key_in_place\<close> that fills \<open>new_dict\<close>.\<close>

fun rebuild :: "string list \<Rightarrow> string \<Rightarrow> node \<Rightarrow> dict \<Rightarrow> dict \<Rightarrow> error + dict" where
  "rebuild [] new_key val d new_dict = Inr new_dict"
| "rebuild (k # keys) new_key val d new_dict =
     (if k = new_key then rebuild keys new_key val d (dict_set new_dict new_key val)
      else (case map_of d k of
              None \<Rightarrow> Inl KeyError
            | Some v \<Rightarrow> rebuild keys new_key val d (dict_set new_dict k v)))"

definition rename_dict_key_in_place :: "dict \<Rightarrow> string \<Rightarrow> string \<Rightarrow> error + dict" where
  "rename_dict_key_in_place d old_key new_key =
     (if \<not> dict_contains old_key d then Inl KeyError
      else if dict_contains new_key d then Inl KeyError
      else (let keys = map fst d in
            case list_index keys old_key of
              None \<Rightarrow> Inl ValueError
            | Some idx \<Rightarrow>
                (case map_of d old_key of
                   None \<Rightarrow> Inl KeyError
                 | Some val \<Rightarrow>
                     rebuild (keys[idx := new_key]) new_key val (dict_del d old_key) [])))"

definition rename :: "path_arg \<Rightarrow> string \<Rightarrow> arc \<Rightarrow> error option \<times> arc" where
  "rename path new_name a =
     (let path' = to_segments path in
      if path' = [] then (Some ValueError, a)
      else (let parents = butlast path'; old_key = last path' in
            case walk_parents parents (files a) of
              Inl e \<Rightarrow> (Some e, a)
            | Inr current_dict \<Rightarrow>
                if \<not> dict_contains old_key current_dict then (Some KeyError, a)
                else (case rename_dict_key_in_place current_dict old_key new_name of
                        Inl e \<Rightarrow> (Some e, a)
                      | Inr d' \<Rightarrow>
                          (None, a\<lparr>files := update_dir parents (\<lambda>_. d') (files a),
                                    mod_count := mod_count a + 1\<rparr>))))"

definition delete :: "path_arg \<Rightarrow> arc \<Rightarrow> error option \<times> arc" where
  "delete path a =
     (let path' = to_segments path in
      if path' = [] then (Some ValueError, a)
      else (let parents = butlast path'; to_remove = last path' in
            case walk_parents parents (files a) of
              Inl e \<Rightarrow> (Some e, a)
            | Inr current_dict \<Rightarrow>
                if \<not> dict_contains to_remove current_dict then (Some KeyError, a)
                else (None, a\<lparr>files := update_dir parents (\<lambda>d. dict_del d to_remove) (files a),
                               mod_count := mod_count a + 1\<rparr>)))"

definition move :: "path_arg \<Rightarrow> path_arg \<Rightarrow> arc \<Rightarrow> error option \<times> arc" where
  "move src dest a =
     (let src' = to_segments src; dest' = to_segments dest in
      if src' = [] then (Some ValueError, a)
      else if dest' = [] then (Some ValueError, a)
      else (let src_parents = butlast src'; src_name = last src' in
            case walk_parents src_parents (files a) of
              Inl e \<Rightarrow> (Some e, a)
            | Inr current_dict \<Rightarrow>
                (case map_of current_dict src_name of
                   None \<Rightarrow> (Some KeyError, a)
                 | Some element \<Rightarrow>
                     (let a1 = a\<lparr>files := update_dir src_parents (\<lambda>d. dict_del d src_name) (files a),
                                  mod_count := mod_count a + 1\<rparr>;
                          dest_parents = butlast dest'; dest_name = last dest'
                      in case get_or_create_directory (PList dest_parents) (files a1) of
                           (Inl e, fs) \<Rightarrow> (Some e, a1\<lparr>files := fs\<rparr>)
                         | (Inr dest_dict, fs) \<Rightarrow>
                             if dict_contains dest_name dest_dict
                             then (Some KeyError, a1\<lparr>files := fs\<rparr>)
                             else (None, a1\<lparr>files := update_dir dest_parents
                                                     (\<lambda>d. dict_set d dest_name element) fs,
                                            mod_count := mod_count a1 + 1\<rparr>)))))"

text \<open>
  \<open>__setitem__\<close>. The key is a \<open>str\<close> or not. The value is \<open>None\<close>, the archive itself,
  another archive, an \<open>ArcFile\<close>, or an object of another type that has no attribute called
  \<open>name\<close> (\<open>VNameless\<close>: an \<open>int\<close>, a \<open>str\<close>, a \<open>dict\<close>, \<open>bytes\<close>). An object of another
  type that does have a \<open>name\<close> attribute is not a value of this type: assigned to a
  directory key it is stored in that directory by \<open>self.files[key][value.name] = value\<close>, and
  the tree then holds an object that is neither a dict nor an \<open>ArcFile\<close>, which \<open>node\<close> does
  not have.

  On a directory key the code evaluates \<open>value.name\<close> before anything is stored, so
  \<open>None\<close>, an archive (its attributes are \<open>files\<close>, \<open>arc_name\<close> and the private fields) and a
  nameless object raise \<open>AttributeError\<close> there, after the counter has been incremented.

  For another archive the code stores \<open>value.files\<close>, the dict object of that archive. The
  trees of this theory are values: \<open>Dir (files b)\<close> is that dict as it is when the call
  returns, which is what the call itself binds. The two archives share the dict afterwards:
  a later change made through the other archive shows in this one without touching this
  one's counter. That effect is \<open>shared_dict_write\<close> below; \<open>setitem\<close> itself, and every
  statement about it, is about the result of the one call.
\<close>

datatype setitem_value = VNone | VSelf | VArc arc | VFile arcfile | VNameless

datatype setitem_key = KStr string | KOther

definition setitem :: "setitem_key \<Rightarrow> setitem_value \<Rightarrow> arc \<Rightarrow> error option \<times> arc" where
  "setitem key val a =
     (if val = VSelf then (Some RecursionError, a)
      else (case key of
              KOther \<Rightarrow> (Some KeyError, a)
            | KStr k \<Rightarrow>
                (let a1 = a\<lparr>mod_count := mod_count a + 1\<rparr> in
                 case map_of (files a1) k of
                   Some (Dir sub) \<Rightarrow>
                     (case val of
                        VFile f \<Rightarrow>
                          (None, a1\<lparr>files := dict_set (files a1) k
                                      (Dir (dict_set sub (af_name f) (File f)))\<rparr>)
                      | _ \<Rightarrow> (Some AttributeError, a1))
                 | _ \<Rightarrow>
                     (case val of
                        VNone \<Rightarrow> (None, a1\<lparr>files := dict_set (files a1) k (Dir [])\<rparr>)
                      | VArc b \<Rightarrow> (None, a1\<lparr>files := dict_set (files a1) k (Dir (files b))\<rparr>)
                      | VFile f \<Rightarrow> (None, a1\<lparr>files := dict_set (files a1) k (File f)\<rparr>)
                      | _ \<Rightarrow> (Some ValueError, a1\<lparr>mod_count := mod_count a1 - 1\<rparr>)))))"

text \<open>
  The archive used to exercise the operations, built through the API: a directory
  \<open>d\<close> holding a one-byte file \<open>f\<close>, and a one-byte file \<open>g\<close> beside it.
\<close>

definition example_arc :: arc where
  "example_arc =
     snd (append_file ''g'' [2] PNone (snd (append_file ''f'' [1] (PStr ''d'') new_arc)))"

text \<open>
  The descent of \<open>__getitem__\<close> over the keys, started at \<open>self.files\<close>.
  \<open>key not in current\<close> on an \<open>ArcFile\<close> is a \<open>TypeError\<close>.
\<close>

fun getitem_loop :: "string list \<Rightarrow> node \<Rightarrow> error + node" where
  "getitem_loop [] current = Inr current"
| "getitem_loop (key # keys) current =
     (case current of
        File f \<Rightarrow> Inl TypeError
      | Dir d \<Rightarrow> (case map_of d key of None \<Rightarrow> Inl KeyError | Some v \<Rightarrow> getitem_loop keys v))"

text \<open>
  What the claim about \<open>rename\<close> says of one entry of the parent dict: the entry under
  the old key gets the new key and keeps its value, every other entry stays as it is.
\<close>

definition rename_key :: "string \<Rightarrow> string \<Rightarrow> (string \<times> node) \<Rightarrow> (string \<times> node)" where
  "rename_key old_key new_key kv = (if fst kv = old_key then (new_key, snd kv) else kv)"

section \<open>Flat index\<close>

text \<open>
  Two functions of Python's standard library, as \<open>posixpath\<close> defines them.
  \<open>os.path.join(a, b)\<close>: an absolute \<open>b\<close> replaces \<open>a\<close>, otherwise \<open>b\<close> is appended
  after a slash unless \<open>a\<close> is empty or already ends in one.
\<close>

definition path_join :: "string \<Rightarrow> string \<Rightarrow> string" where
  "path_join a b =
     (if b \<noteq> [] \<and> hd b = CHR ''/'' then b
      else if a = [] \<or> last a = CHR ''/'' then a @ b
      else a @ ''/'' @ b)"

text \<open>\<open>p.rfind(c)\<close>: the last index of \<open>c\<close>, or \<open>-1\<close>.\<close>

fun rfind_from :: "char \<Rightarrow> string \<Rightarrow> int \<Rightarrow> int \<Rightarrow> int" where
  "rfind_from c [] i found = found"
| "rfind_from c (x # xs) i found = rfind_from c xs (i + 1) (if x = c then i else found)"

definition rfind :: "char \<Rightarrow> string \<Rightarrow> int" where
  "rfind c p = rfind_from c p 0 (-1)"

text \<open>
  \<open>os.path.splitext(p)[0]\<close>: the extension starts at the last dot that comes after the
  last slash and after at least one character of the file name that is not a dot.
\<close>

definition splitext_root :: "string \<Rightarrow> string" where
  "splitext_root p =
     (let sepIndex = rfind (CHR ''/'') p; dotIndex = rfind (CHR ''.'') p in
      if dotIndex > sepIndex \<and>
         (\<exists>c \<in> set (take (nat (dotIndex - (sepIndex + 1))) (drop (nat (sepIndex + 1)) p)).
            c \<noteq> CHR ''.'')
      then take (nat dotIndex) p else p)"

type_synonym flat_map = "(string \<times> arcfile option) list"

text \<open>
  The \<open>for\<close> loop of \<open>_flatten_file_map\<close> over the items of \<open>current_dict\<close>. The stack
  is a list whose head is the top.
\<close>

fun flatten_items ::
  "bool \<Rightarrow> string \<Rightarrow> dict \<Rightarrow> flat_map \<times> (string \<times> dict) list
     \<Rightarrow> flat_map \<times> (string \<times> dict) list" where
  "flatten_items include_dirs current_path [] (results, stack) = (results, stack)"
| "flatten_items include_dirs current_path ((key, val) # items) (results, stack) =
     (let next_path = path_join current_path key in
      case val of
        Dir d \<Rightarrow>
          flatten_items include_dirs current_path items
            (if include_dirs then dict_set results next_path None else results,
             (next_path, d) # stack)
      | File f \<Rightarrow>
          flatten_items include_dirs current_path items
            (dict_set results next_path (Some f), stack))"

text \<open>The number of nodes of a dict and below; the \<open>while\<close> loop terminates by it.\<close>

fun node_count :: "node \<Rightarrow> nat" where
  "node_count (File f) = 1"
| "node_count (Dir d) = Suc (sum_list (map (\<lambda>kv. node_count (snd kv)) d))"

definition stack_count :: "(string \<times> dict) list \<Rightarrow> nat" where
  "stack_count stack = sum_list (map (\<lambda>pd. node_count (Dir (snd pd))) stack)"

text \<open>The \<open>while stack\<close> loop of \<open>_flatten_file_map\<close>.\<close>

function flatten_loop :: "bool \<Rightarrow> (string \<times> dict) list \<Rightarrow> flat_map \<Rightarrow> flat_map" where
  "flatten_loop include_dirs [] results = results"
| "flatten_loop include_dirs ((current_path, current_dict) # stack) results =
     (case flatten_items include_dirs current_path current_dict (results, stack) of
        (results', stack') \<Rightarrow> flatten_loop include_dirs stack' results')"
  by pat_completeness auto
termination
proof (relation "measure (\<lambda>(inc, stack, results). stack_count stack)", goal_cases)
  case 1
  show ?case by simp
next
  case (2 include_dirs current_path current_dict stack results results' stack')
  have pushed: "stack_count (snd (flatten_items inc cur items (res, st)))
      = stack_count st
        + sum_list (map (\<lambda>kv. case snd kv of Dir d \<Rightarrow> node_count (Dir d) | File f \<Rightarrow> 0) items)"
    for inc cur items res st
  proof (induction items arbitrary: res st)
    case Nil
    then show ?case by simp
  next
    case (Cons kv items)
    obtain key val where kv: "kv = (key, val)" by (cases kv)
    show ?case
    proof (cases val)
      case (Dir d)
      with kv show ?thesis
        by (simp add: Cons.IH Let_def) (simp add: stack_count_def)
    next
      case (File f)
      with kv show ?thesis by (simp add: Cons.IH Let_def)
    qed
  qed
  have below: "sum_list (map (\<lambda>kv. case snd kv of Dir d \<Rightarrow> node_count (Dir d) | File f \<Rightarrow> 0) items)
      \<le> sum_list (map (\<lambda>kv. node_count (snd kv)) items)" for items
    by (induction items) (auto split: node.splits)
  from 2 have s: "stack' = snd (flatten_items include_dirs current_path current_dict (results, stack))"
    by (metis snd_conv)
  have "stack_count stack' < stack_count ((current_path, current_dict) # stack)"
    unfolding s pushed using below [of current_dict] by (simp add: stack_count_def)
  then show ?case by simp
qed

definition flatten_file_map :: "bool \<Rightarrow> arc \<Rightarrow> flat_map" where
  "flatten_file_map include_dirs a =
     flatten_loop include_dirs [(splitext_root (arc_name a), files a)] []"

text \<open>\<open>_update\<close>.\<close>

definition update :: "arc \<Rightarrow> arc" where
  "update a =
     (if mod_count a > 0
      then a\<lparr>mod_count := 0,
             only_files := flatten_file_map False a,
             flat_file_struct := flatten_file_map True a\<rparr>
      else a)"

text \<open>
  The readers of the flat index. Each returns what the caller sees together with the
  archive afterwards. \<open>iter_arc\<close> is \<open>__iter__\<close>: the items of \<open>_flat_file_struct\<close> in
  order; \<open>len_arc\<close> is \<open>__len__\<close>.
\<close>

definition get_all_files :: "arc \<Rightarrow> flat_map \<times> arc" where
  "get_all_files a = (only_files (update a), update a)"

definition iter_arc :: "arc \<Rightarrow> flat_map \<times> arc" where
  "iter_arc a = (flat_file_struct a, a)"

definition len_arc :: "arc \<Rightarrow> nat \<times> arc" where
  "len_arc a = (length (flat_file_struct (update a)), update a)"

text \<open>The numbers of \<open>ArcFile\<close> leaves and of dicts in a node, the node itself included.\<close>

fun count_files :: "node \<Rightarrow> nat" where
  "count_files (File f) = 1"
| "count_files (Dir d) = sum_list (map (\<lambda>kv. count_files (snd kv)) d)"

fun count_dirs :: "node \<Rightarrow> nat" where
  "count_dirs (File f) = 0"
| "count_dirs (Dir d) = Suc (sum_list (map (\<lambda>kv. count_dirs (snd kv)) d))"

text \<open>Names that are not empty and hold no slash, at every level.\<close>

definition plain_name :: "string \<Rightarrow> bool" where
  "plain_name k = (k \<noteq> [] \<and> CHR ''/'' \<notin> set k)"

fun plain_names :: "node \<Rightarrow> bool" where
  "plain_names (File f) = True"
| "plain_names (Dir d) = (\<forall>kv \<in> set d. plain_name (fst kv) \<and> plain_names (snd kv))"

text \<open>
  The paths of all nodes strictly below a node that sits at path \<open>p\<close>, each joined the way
  \<open>_flatten_file_map\<close> joins them.
\<close>

fun all_paths :: "string \<Rightarrow> node \<Rightarrow> string list" where
  "all_paths p (File f) = []"
| "all_paths p (Dir d) =
     concat (map (\<lambda>kv. path_join p (fst kv) # all_paths (path_join p (fst kv)) (snd kv)) d)"

definition dir_prefix :: "string \<Rightarrow> string" where
  "dir_prefix p = (if p = [] \<or> last p = CHR ''/'' then p else p @ ''/'')"

text \<open>The paths still to be recorded for the dicts on the stack.\<close>

fun stack_paths :: "(string \<times> dict) list \<Rightarrow> string list" where
  "stack_paths [] = []"
| "stack_paths ((p, d) # stack) = all_paths p (Dir d) @ stack_paths stack"

section \<open>Entry records and byte conversions\<close>

text \<open>\<open>_align\<close>.\<close>

definition align :: "nat \<Rightarrow> nat \<Rightarrow> nat" where
  "align x boundary =
     (let rem = x mod boundary in if rem \<noteq> 0 then x + (boundary - rem) else x)"

text \<open>\<open>class _FST_ENTRY_\<close>.\<close>

record fst_entry =
  is_dir :: bool
  name_off :: nat
  parent_or_file_off :: nat
  next_entry_or_len :: nat

text \<open>\<open>x.to_bytes(n, "big")\<close> for \<open>0 \<le> x < 256 ^ n\<close>; the callers check the range.\<close>

fun to_bytes_big :: "nat \<Rightarrow> nat \<Rightarrow> byte list" where
  "to_bytes_big 0 x = []"
| "to_bytes_big (Suc n) x = word_of_nat (x div 256 ^ n) # to_bytes_big n x"

text \<open>The value of a big-endian unsigned field, as \<open>struct.unpack\<close> with \<open>I\<close> reads it.\<close>

definition from_bytes_big :: "byte list \<Rightarrow> nat" where
  "from_bytes_big bs = foldl (\<lambda>acc b. acc * 256 + unat b) 0 bs"

text \<open>The value of a 32-bit field read with \<open>i\<close> (signed).\<close>

definition signed32 :: "nat \<Rightarrow> int" where
  "signed32 w = (if w < 2 ^ 31 then int w else int w - 2 ^ 32)"

text \<open>\<open>_FST_ENTRY_.to_binary\<close>.\<close>

definition to_binary :: "fst_entry \<Rightarrow> error + byte list" where
  "to_binary e =
     (if \<not> name_off e \<le> 0xFFFFFF then Inl ValueError
      else if \<not> parent_or_file_off e < 2 ^ 32 then Inl OverflowError
      else if \<not> next_entry_or_len e < 2 ^ 32 then Inl OverflowError
      else Inr ((if is_dir e then 1 else 0) # to_bytes_big 3 (name_off e)
                @ to_bytes_big 4 (parent_or_file_off e)
                @ to_bytes_big 4 (next_entry_or_len e)))"

text \<open>
  A binary stream is its name and its bytes; the position is passed along. \<open>read\<close> is
  \<open>data.read(n)\<close>: it returns the bytes that are there, at most \<open>n\<close>, and the position
  after them.
\<close>

record stream =
  stream_name :: string
  stream_bytes :: "byte list"

definition read :: "byte list \<Rightarrow> nat \<Rightarrow> nat \<Rightarrow> byte list \<times> nat" where
  "read bs pos n = (let r = take n (drop pos bs) in (r, pos + length r))"

text \<open>
  \<open>_FST_ENTRY_.load_from_bin\<close>: three big-endian 32-bit words; \<open>unpack\<close> raises
  \<open>struct.error\<close> on fewer than 12 bytes. The top byte of the first word is the
  directory flag, its low 24 bits are the name offset.
\<close>

definition load_entry :: "byte list \<Rightarrow> nat \<Rightarrow> error + (fst_entry \<times> nat)" where
  "load_entry bs pos =
     (let (b, pos') = read bs pos 12 in
      if length b \<noteq> 12 then Inl StructError
      else (let is_dir_name_off = from_bytes_big (take 4 b) in
            Inr (\<lparr> is_dir = (is_dir_name_off div 2 ^ 24 \<noteq> 0),
                    name_off = is_dir_name_off mod 2 ^ 24,
                    parent_or_file_off = from_bytes_big (take 4 (drop 4 b)),
                    next_entry_or_len = from_bytes_big (take 4 (drop 8 b)) \<rparr>, pos')))"

section \<open>Encoder\<close>

text \<open>Step 1 of \<open>to_bytes\<close>: the entries (placeholders are \<open>None\<close>), the names, the file map.\<close>

record enc_state =
  fst_entries :: "fst_entry option list"
  names :: "string list"
  file_map :: "(nat \<times> arcfile) list"

definition add_entry :: "string \<Rightarrow> enc_state \<Rightarrow> nat \<times> enc_state" where
  "add_entry name st =
     (length (fst_entries st),
      st\<lparr>fst_entries := fst_entries st @ [None], names := names st @ [name]\<rparr>)"

fun traverse :: "string \<Rightarrow> node \<Rightarrow> nat \<Rightarrow> enc_state \<Rightarrow> enc_state"
  and traverse_items :: "dict \<Rightarrow> nat \<Rightarrow> enc_state \<Rightarrow> enc_state" where
  "traverse name (Dir d) parent_idx st =
     (let (my_idx, st1) = add_entry name st;
          st2 = traverse_items d my_idx st1;
          next_idx = length (fst_entries st2)
      in st2\<lparr>fst_entries := (fst_entries st2)[my_idx :=
            Some \<lparr>is_dir = True, name_off = 0, parent_or_file_off = parent_idx,
                  next_entry_or_len = next_idx\<rparr>]\<rparr>)"
| "traverse name (File f) parent_idx st =
     (let (my_idx, st1) = add_entry name st
      in st1\<lparr>fst_entries := (fst_entries st1)[my_idx :=
             Some \<lparr>is_dir = False, name_off = 0, parent_or_file_off = 0,
                   next_entry_or_len = 0\<rparr>],
             file_map := dict_set (file_map st1) my_idx f\<rparr>)"
| "traverse_items [] parent_idx st = st"
| "traverse_items ((child_name, child_node) # items) parent_idx st =
     traverse_items items parent_idx (traverse child_name child_node parent_idx st)"

definition build_fst :: "dict \<Rightarrow> enc_state" where
  "build_fst fs =
     (let (root_idx, st1) = add_entry [] \<lparr>fst_entries = [], names = [], file_map = []\<rparr>;
          st2 = traverse_items fs root_idx st1
      in st2\<lparr>fst_entries := (fst_entries st2)[root_idx :=
            Some \<lparr>is_dir = True, name_off = 0, parent_or_file_off = 0,
                  next_entry_or_len = length (fst_entries st2)\<rparr>]\<rparr>)"

text \<open>\<open>nm.encode("ascii", errors="replace")\<close>: a character above 127 becomes \<open>?\<close>.\<close>

definition encode_ascii :: "string \<Rightarrow> byte list" where
  "encode_ascii nm = map (\<lambda>c. if (of_char c :: nat) < 128 then word_of_nat (of_char c) else 0x3F) nm"

text \<open>Step 2: the string table and the offset of each name in it.\<close>

fun build_string_table :: "string list \<Rightarrow> byte list \<Rightarrow> nat list \<Rightarrow> byte list \<times> nat list" where
  "build_string_table [] string_table name_offsets = (string_table, name_offsets)"
| "build_string_table (nm # nms) string_table name_offsets =
     build_string_table nms (string_table @ encode_ascii nm @ [0])
       (name_offsets @ [length string_table])"

text \<open>
  The loop that assigns the name offsets. An entry that is still a placeholder has no
  attribute to assign to.
\<close>

fun assign_name_offs :: "fst_entry option list \<Rightarrow> nat list \<Rightarrow> error + fst_entry list" where
  "assign_name_offs [] offs = Inr []"
| "assign_name_offs (None # es) offs = Inl AttributeError"
| "assign_name_offs (Some e # es) [] = Inl IndexError"
| "assign_name_offs (Some e # es) (off # offs) =
     (case assign_name_offs es offs of
        Inl err \<Rightarrow> Inl err
      | Inr es' \<Rightarrow> Inr (e\<lparr>name_off := off\<rparr> # es'))"

text \<open>Step 4: offset and size of every file entry; \<open>idx\<close> is the index of the first entry.\<close>

fun fill_file_entries ::
  "fst_entry list \<Rightarrow> nat \<Rightarrow> (nat \<times> arcfile) list \<Rightarrow> nat \<Rightarrow> error + fst_entry list" where
  "fill_file_entries [] idx fm curr_file_off = Inr []"
| "fill_file_entries (entry # es) idx fm curr_file_off =
     (if \<not> is_dir entry then
        (case map_of fm idx of
           None \<Rightarrow> Inl KeyError
         | Some arc_file \<Rightarrow>
             (case fill_file_entries es (Suc idx) fm
                     (curr_file_off + align (length (af_data arc_file)) 0x20) of
                Inl err \<Rightarrow> Inl err
              | Inr es' \<Rightarrow>
                  Inr (entry\<lparr>parent_or_file_off := curr_file_off,
                             next_entry_or_len := length (af_data arc_file)\<rparr> # es')))
      else (case fill_file_entries es (Suc idx) fm curr_file_off of
              Inl err \<Rightarrow> Inl err
            | Inr es' \<Rightarrow> Inr (entry # es')))"

text \<open>
  Steps 1 to 4 together: the final entries, the file map, the string table and the
  offset of the file data.
\<close>

record layout =
  lay_entries :: "fst_entry list"
  lay_file_map :: "(nat \<times> arcfile) list"
  lay_string_table :: "byte list"
  lay_file_data_offset :: nat

definition encode_layout :: "dict \<Rightarrow> error + layout" where
  "encode_layout fs =
     (let st = build_fst fs;
          (string_table, name_offsets) = build_string_table (names st) [] []
      in case assign_name_offs (fst_entries st) name_offsets of
           Inl err \<Rightarrow> Inl err
         | Inr es1 \<Rightarrow>
             (let fst_offset = 0x20;
                  fst_size = length es1 * 12;
                  str_table_offset = fst_offset + fst_size;
                  str_table_size = length string_table;
                  file_data_offset = align (str_table_offset + str_table_size) 0x20
              in case fill_file_entries es1 0 (file_map st) file_data_offset of
                   Inl err \<Rightarrow> Inl err
                 | Inr es2 \<Rightarrow>
                     Inr \<lparr>lay_entries = es2, lay_file_map = file_map st,
                          lay_string_table = string_table,
                          lay_file_data_offset = file_data_offset\<rparr>))"

text \<open>The magic \<open>"U\<ordfeminine>8-"\<close> in Latin-1.\<close>

definition U8_FILE_MAGIC :: "byte list" where
  "U8_FILE_MAGIC = [0x55, 0xAA, 0x38, 0x2D]"

text \<open>Step 5. \<open>struct.pack\<close> raises \<open>struct.error\<close> on a field of 2^32 or more.\<close>

definition pack_header :: "nat \<Rightarrow> nat \<Rightarrow> nat \<Rightarrow> error + byte list" where
  "pack_header fst_offset fst_size file_data_offset =
     (if \<not> fst_offset < 2 ^ 32 \<or> \<not> fst_size < 2 ^ 32 \<or> \<not> file_data_offset < 2 ^ 32
      then Inl StructError
      else Inr (U8_FILE_MAGIC @ to_bytes_big 4 fst_offset @ to_bytes_big 4 fst_size
                @ to_bytes_big 4 file_data_offset @ replicate 16 0))"

fun write_fst :: "fst_entry list \<Rightarrow> error + byte list" where
  "write_fst [] = Inr []"
| "write_fst (entry # es) =
     (case to_binary entry of
        Inl err \<Rightarrow> Inl err
      | Inr b \<Rightarrow> (case write_fst es of Inl err \<Rightarrow> Inl err | Inr bs \<Rightarrow> Inr (b @ bs)))"

text \<open>The zero padding written after a block of \<open>n\<close> bytes.\<close>

definition padding :: "nat \<Rightarrow> byte list" where
  "padding n = replicate (align n 32 - n) 0"

fun write_files :: "fst_entry list \<Rightarrow> nat \<Rightarrow> (nat \<times> arcfile) list \<Rightarrow> error + byte list" where
  "write_files [] idx fm = Inr []"
| "write_files (entry # es) idx fm =
     (if \<not> is_dir entry then
        (case map_of fm idx of
           None \<Rightarrow> Inl KeyError
         | Some arc_file \<Rightarrow>
             (case write_files es (Suc idx) fm of
                Inl err \<Rightarrow> Inl err
              | Inr bs \<Rightarrow>
                  Inr (af_data arc_file @ padding (length (af_data arc_file)) @ bs)))
      else write_files es (Suc idx) fm)"

definition to_bytes :: "arc \<Rightarrow> error + byte list" where
  "to_bytes a =
     (case encode_layout (files a) of
        Inl err \<Rightarrow> Inl err
      | Inr lay \<Rightarrow>
          (case pack_header 0x20
                  (length (lay_entries lay) * 12 + length (lay_string_table lay))
                  (lay_file_data_offset lay) of
             Inl err \<Rightarrow> Inl err
           | Inr header \<Rightarrow>
               (case write_fst (lay_entries lay) of
                  Inl err \<Rightarrow> Inl err
                | Inr fst_bytes \<Rightarrow>
                    (let buffer = header @ fst_bytes @ lay_string_table lay;
                         buffer' = buffer @ padding (length buffer)
                     in case write_files (lay_entries lay) 0 (lay_file_map lay) of
                          Inl err \<Rightarrow> Inl err
                        | Inr file_bytes \<Rightarrow> Inr (buffer' @ file_bytes)))))"

text \<open>
  The archive of the concrete scenario, built through the API: a directory \<open>point\<close>
  holding the two-byte file \<open>point_001.bin\<close>.
\<close>

definition course_arc :: arc where
  "course_arc = snd (append_file ''point_001.bin'' [1, 2] (PStr ''point'') new_arc)"

section \<open>Decoder\<close>

text \<open>\<open>data.seek(p)\<close>: a negative position is refused by the operating system.\<close>

definition seek :: "int \<Rightarrow> error + nat" where
  "seek p = (if p < 0 then Inl OSError else Inr (nat p))"

text \<open>
  The head of \<open>_load_from_bin\<close>: the magic, the three signed header fields (only the
  first is used) and the 16 reserved bytes, whose read is not checked.
\<close>

definition read_header :: "byte list \<Rightarrow> nat \<Rightarrow> error + (int \<times> nat)" where
  "read_header bs base_offset =
     (let (m, pos1) = read bs base_offset 4 in
      if length m \<noteq> 4 then Inl StructError
      else if m \<noteq> U8_FILE_MAGIC then Inl AssertionError
      else (let (h, pos2) = read bs pos1 12 in
            if length h \<noteq> 12 then Inl StructError
            else (let fst_start = signed32 (from_bytes_big (take 4 h));
                      (r, pos3) = read bs pos2 16
                  in Inr (fst_start, pos3))))"

text \<open>The list comprehension of \<open>open_arc\<close>: \<open>n\<close> more entries from \<open>pos\<close> on.\<close>

fun load_entries :: "byte list \<Rightarrow> nat \<Rightarrow> nat \<Rightarrow> error + (fst_entry list \<times> nat)" where
  "load_entries bs 0 pos = Inr ([], pos)"
| "load_entries bs (Suc n) pos =
     (case load_entry bs pos of
        Inl err \<Rightarrow> Inl err
      | Inr (e, pos') \<Rightarrow>
          (case load_entries bs n pos' of
             Inl err \<Rightarrow> Inl err
           | Inr (es, pos'') \<Rightarrow> Inr (e # es, pos'')))"

text \<open>\<open>open_arc\<close>: the entries and \<open>string_tbl_start\<close>.\<close>

definition open_arc :: "byte list \<Rightarrow> nat \<Rightarrow> int \<Rightarrow> error + (fst_entry list \<times> nat)" where
  "open_arc bs base_offset fst_start =
     (case seek (int base_offset + fst_start) of
        Inl err \<Rightarrow> Inl err
      | Inr p \<Rightarrow>
          (case load_entry bs p of
             Inl err \<Rightarrow> Inl err
           | Inr (head, p1) \<Rightarrow>
               (let entry_num = next_entry_or_len head in
                case load_entries bs (entry_num - 1) p1 of
                  Inl err \<Rightarrow> Inl err
                | Inr (nodes, p2) \<Rightarrow> Inr (head # nodes, p2))))"

text \<open>
  \<open>read_terminated_string\<close>: bytes are taken one by one up to a NUL, which is consumed,
  or to the end of the stream; the result is the bytes taken and how many were consumed.
\<close>

fun take_terminated :: "byte list \<Rightarrow> byte list \<times> nat" where
  "take_terminated [] = ([], 0)"
| "take_terminated (b # bs) =
     (if b = 0 then ([], 1)
      else (case take_terminated bs of (taken, n) \<Rightarrow> (b # taken, Suc n)))"

text \<open>\<open>.decode("ascii")\<close> raises on a byte above 127.\<close>

definition read_terminated_string :: "byte list \<Rightarrow> nat \<Rightarrow> error + (string \<times> nat)" where
  "read_terminated_string bs pos =
     (case take_terminated (drop pos bs) of
        (taken, n) \<Rightarrow>
          if \<exists>b \<in> set taken. \<not> unat b < 128 then Inl UnicodeDecodeError
          else Inr (map (\<lambda>b. char_of (unat b)) taken, pos + n))"

text \<open>
  The state of \<open>load_dir\<close> and of the loop around it: the stream position, the indices
  already parsed, the dict being filled and the stack of open directories. A directory
  on the stack is held by its closing index and by its key path inside \<open>dir_files\<close>;
  \<open>current_dir\<close> is the top of the stack, or \<open>dir_files\<close> when the stack is empty. The
  path strings that \<open>load_dir\<close> computes are not used by it and are left out.
\<close>

record dir_state =
  ds_pos :: nat
  ds_already_parsed :: "nat list"
  ds_dir_files :: dict
  ds_dir_stack :: "(nat \<times> string list) list"

definition current_dir :: "dir_state \<Rightarrow> string list" where
  "current_dir st = (case ds_dir_stack st of [] \<Rightarrow> [] | frame # _ \<Rightarrow> snd frame)"

text \<open>One iteration of the \<open>for x\<close> loop of \<open>load_dir\<close>.\<close>

definition load_dir_step ::
  "byte list \<Rightarrow> fst_entry list \<Rightarrow> nat \<Rightarrow> nat \<Rightarrow> dir_state \<Rightarrow> error + dir_state" where
  "load_dir_step bs entries string_tbl_start x st =
     (if \<not> x < length entries then Inl IndexError
      else (let entry = entries ! x in
            case read_terminated_string bs (string_tbl_start + name_off entry) of
              Inl err \<Rightarrow> Inl err
            | Inr (name, pos1) \<Rightarrow>
                (let st1 =
                   (if is_dir entry then
                      (if next_entry_or_len entry = x + 1 then
                         st\<lparr>ds_pos := pos1,
                            ds_dir_files := update_dir (current_dir st)
                               (\<lambda>d. dict_set d name (Dir [])) (ds_dir_files st)\<rparr>
                       else
                         st\<lparr>ds_pos := pos1,
                            ds_dir_files := update_dir (current_dir st)
                               (\<lambda>d. dict_set d name (Dir [])) (ds_dir_files st),
                            ds_dir_stack := (next_entry_or_len entry, current_dir st @ [name])
                               # ds_dir_stack st\<rparr>)
                    else
                      (let (file_data, pos2) =
                             read bs (parent_or_file_off entry) (next_entry_or_len entry)
                       in st\<lparr>ds_pos := pos2,
                             ds_dir_files := update_dir (current_dir st)
                               (\<lambda>d. dict_set d name (File (ArcFile name file_data)))
                               (ds_dir_files st)\<rparr>))
                 in Inr (st1\<lparr>ds_already_parsed := ds_already_parsed st @ [x],
                             ds_dir_stack := dropWhile (\<lambda>frame. fst frame = x + 1) (ds_dir_stack st1)\<rparr>))))"

fun load_dir_loop ::
  "byte list \<Rightarrow> fst_entry list \<Rightarrow> nat \<Rightarrow> nat list \<Rightarrow> dir_state \<Rightarrow> error + dir_state" where
  "load_dir_loop bs entries string_tbl_start [] st = Inr st"
| "load_dir_loop bs entries string_tbl_start (x # xs) st =
     (case load_dir_step bs entries string_tbl_start x st of
        Inl err \<Rightarrow> Inl err
      | Inr st' \<Rightarrow> load_dir_loop bs entries string_tbl_start xs st')"

text \<open>
  \<open>load_dir\<close>: the dict of the directory at \<open>dir_idx\<close>, the stream position and the
  indices parsed.
\<close>

definition load_dir ::
  "byte list \<Rightarrow> fst_entry list \<Rightarrow> nat \<Rightarrow> nat \<Rightarrow> nat \<Rightarrow> nat list
     \<Rightarrow> error + (dict \<times> nat \<times> nat list)" where
  "load_dir bs entries string_tbl_start dir_idx pos already_parsed =
     (if \<not> dir_idx < length entries then Inl IndexError
      else (case load_dir_loop bs entries string_tbl_start
                   [dir_idx + 1 ..< next_entry_or_len (entries ! dir_idx)]
                   \<lparr>ds_pos = pos, ds_already_parsed = already_parsed @ [dir_idx],
                    ds_dir_files = [], ds_dir_stack = []\<rparr> of
              Inl err \<Rightarrow> Inl err
            | Inr st \<Rightarrow> Inr (ds_dir_files st, ds_pos st, ds_already_parsed st)))"

text \<open>
  One iteration of the \<open>for i\<close> loop of \<open>_load_from_bin\<close>, on the position, the indices
  parsed and \<open>self.files\<close>. A file entry is read from where the stream stands after
  its name.
\<close>

definition load_top_step ::
  "byte list \<Rightarrow> fst_entry list \<Rightarrow> nat \<Rightarrow> nat \<Rightarrow> nat \<times> nat list \<times> dict
     \<Rightarrow> error + (nat \<times> nat list \<times> dict)" where
  "load_top_step bs entries string_tbl_start i s =
     (case s of (pos, already_parsed, fs) \<Rightarrow>
        if i \<in> set already_parsed then Inr s
        else if \<not> i < length entries then Inl IndexError
        else (let entry = entries ! i in
              if is_dir entry then
                (case read_terminated_string bs (string_tbl_start + name_off entry) of
                   Inl err \<Rightarrow> Inl err
                 | Inr (name, pos1) \<Rightarrow>
                     (case load_dir bs entries string_tbl_start i pos1 already_parsed of
                        Inl err \<Rightarrow> Inl err
                      | Inr (d, pos2, parsed) \<Rightarrow> Inr (pos2, parsed, dict_set fs name (Dir d))))
              else
                (case read_terminated_string bs (string_tbl_start + name_off entry) of
                   Inl err \<Rightarrow> Inl err
                 | Inr (name, pos1) \<Rightarrow>
                     (let (file_data, pos2) = read bs pos1 (next_entry_or_len entry)
                      in Inr (pos2, already_parsed @ [i],
                              dict_set fs name (File (ArcFile name file_data)))))))"

fun load_top_loop ::
  "byte list \<Rightarrow> fst_entry list \<Rightarrow> nat \<Rightarrow> nat list \<Rightarrow> nat \<times> nat list \<times> dict
     \<Rightarrow> error + (nat \<times> nat list \<times> dict)" where
  "load_top_loop bs entries string_tbl_start [] s = Inr s"
| "load_top_loop bs entries string_tbl_start (i # is) s =
     (case load_top_step bs entries string_tbl_start i s of
        Inl err \<Rightarrow> Inl err
      | Inr s' \<Rightarrow> load_top_loop bs entries string_tbl_start is s')"

text \<open>
  \<open>Arc(data=...)\<close>, that is \<open>_load_from_bin\<close> inside the constructor, on a stream that
  stands at \<open>base_offset\<close>: an exception leaves no archive behind.
\<close>

definition load_from_bin :: "stream \<Rightarrow> nat \<Rightarrow> error + arc" where
  "load_from_bin data base_offset =
     (let bs = stream_bytes data in
      case read_header bs base_offset of
        Inl err \<Rightarrow> Inl err
      | Inr (fst_start, pos0) \<Rightarrow>
          (case open_arc bs base_offset fst_start of
             Inl err \<Rightarrow> Inl err
           | Inr (entries, string_tbl_start) \<Rightarrow>
               (case load_top_loop bs entries string_tbl_start
                       [1 ..< next_entry_or_len (entries ! 0)] (string_tbl_start, [], []) of
                  Inl err \<Rightarrow> Inl err
                | Inr (pos, parsed, fs) \<Rightarrow>
                    (let a = \<lparr> mod_count = 0, flat_file_struct = [], only_files = [],
                                created_manually = False, arc_name = stream_name data,
                                files = fs \<rparr>
                     in Inr (a\<lparr>only_files := flatten_file_map False a,
                               flat_file_struct := flatten_file_map True a\<rparr>)))))"

text \<open>\<open>to_bytes\<close> followed by \<open>_load_from_bin\<close> on a stream of the given name.\<close>

definition decode_encoded :: "string \<Rightarrow> arc \<Rightarrow> error + arc" where
  "decode_encoded name a =
     (case to_bytes a of
        Inl err \<Rightarrow> Inl err
      | Inr bs \<Rightarrow> load_from_bin \<lparr>stream_name = name, stream_bytes = bs\<rparr> 0)"

text \<open>The 96 bytes that encode one file \<open>a\<close> with the single byte 1 directly under the root.\<close>

definition single_file_bytes :: "byte list" where
  "single_file_bytes =
     [85, 170, 56, 45, 0, 0, 0, 32, 0, 0, 0, 27, 0, 0, 0, 64, 0, 0, 0, 0, 0,
      0, 0, 0, 0, 0, 0, 0, 0, 0, 0, 0, 1, 0, 0, 0, 0, 0, 0, 0, 0, 0, 0, 2,
      0, 0, 0, 1, 0, 0, 0, 64, 0, 0, 0, 1, 0, 97, 0, 0, 0, 0, 0, 0, 1, 0, 0,
      0, 0, 0, 0, 0, 0, 0, 0, 0, 0, 0, 0, 0, 0, 0, 0, 0, 0, 0, 0, 0, 0, 0,
      0, 0, 0, 0, 0, 0]"

text \<open>The 128 bytes and the layout of the concrete scenario.\<close>

definition course_bytes :: "byte list" where
  "course_bytes =
     [85, 170, 56, 45, 0, 0, 0, 32, 0, 0, 0, 57, 0, 0, 0, 96, 0, 0, 0, 0, 0,
      0, 0, 0, 0, 0, 0, 0, 0, 0, 0, 0, 1, 0, 0, 0, 0, 0, 0, 0, 0, 0, 0, 3,
      1, 0, 0, 1, 0, 0, 0, 0, 0, 0, 0, 3, 0, 0, 0, 7, 0, 0, 0, 96, 0, 0, 0,
      2, 0, 112, 111, 105, 110, 116, 0, 112, 111, 105, 110, 116, 95, 48, 48,
      49, 46, 98, 105, 110, 0, 0, 0, 0, 0, 0, 0, 0, 1, 2, 0, 0, 0, 0, 0, 0,
      0, 0, 0, 0, 0, 0, 0, 0, 0, 0, 0, 0, 0, 0, 0, 0, 0, 0, 0, 0, 0, 0, 0,
      0]"

definition course_layout :: layout where
  "course_layout =
     \<lparr>lay_entries =
        [\<lparr>is_dir = True, name_off = 0, parent_or_file_off = 0, next_entry_or_len = 3\<rparr>,
         \<lparr>is_dir = True, name_off = 1, parent_or_file_off = 0, next_entry_or_len = 3\<rparr>,
         \<lparr>is_dir = False, name_off = 7, parent_or_file_off = 96, next_entry_or_len = 2\<rparr>],
      lay_file_map = [(2, ArcFile ''point_001.bin'' [1, 2])],
      lay_string_table =
        [0, 112, 111, 105, 110, 116, 0, 112, 111, 105, 110, 116, 95, 48,
         48, 49, 46, 98, 105, 110, 0],
      lay_file_data_offset = 96\<rparr>"

section \<open>What the decoder looks at\<close>

text \<open>
  Two entry records that agree in everything the decoder reads: the flag, the name offset
  and the last field, and for a file also the middle field. A directory's parent index is
  free.
\<close>

definition entry_rel :: "fst_entry \<Rightarrow> fst_entry \<Rightarrow> bool" where
  "entry_rel e' e =
     (is_dir e' = is_dir e \<and> name_off e' = name_off e \<and>
      next_entry_or_len e' = next_entry_or_len e \<and>
      (\<not> is_dir e \<longrightarrow> parent_or_file_off e' = parent_or_file_off e))"

text \<open>
  Two streams with their entry tables that give the decoder the same reads: related
  entries, the same name at every entry's name offset, and for every file entry the same
  bytes at the file's offset and at the position after its name.
\<close>

definition same_view ::
  "byte list \<Rightarrow> fst_entry list \<Rightarrow> byte list \<Rightarrow> fst_entry list \<Rightarrow> nat \<Rightarrow> bool" where
  "same_view bs' es' bs es stbl =
     (length es' = length es \<and>
      (\<forall>x < length es.
         entry_rel (es' ! x) (es ! x) \<and>
         read_terminated_string bs' (stbl + name_off (es ! x))
           = read_terminated_string bs (stbl + name_off (es ! x)) \<and>
         (\<not> is_dir (es ! x) \<longrightarrow>
            read bs' (parent_or_file_off (es ! x)) (next_entry_or_len (es ! x))
              = read bs (parent_or_file_off (es ! x)) (next_entry_or_len (es ! x)) \<and>
            (\<forall>name p. read_terminated_string bs (stbl + name_off (es ! x)) = Inr (name, p) \<longrightarrow>
               read bs' p (next_entry_or_len (es ! x)) = read bs p (next_entry_or_len (es ! x))))))"

text \<open>
  A stream that keeps to the wire format as far as the decoder reads it: the 32-byte header
  and the entry table are inside the stream; every directory's bound is at most the number
  of entries; every name is ASCII and ends with a NUL inside the stream, for a file before
  the file's data; every file's data lie inside the stream.
\<close>

definition conforming :: "byte list \<Rightarrow> nat \<Rightarrow> bool" where
  "conforming bs pos =
     (case read_header bs pos of
        Inl err \<Rightarrow> False
      | Inr (fst_start, p0) \<Rightarrow>
          pos + 32 \<le> length bs \<and>
          (case open_arc bs pos fst_start of
             Inl err \<Rightarrow> False
           | Inr (es, stbl) \<Rightarrow>
               (\<forall>x < length es.
                  0 \<in> set (drop (stbl + name_off (es ! x)) bs) \<and>
                  (case read_terminated_string bs (stbl + name_off (es ! x)) of
                     Inl err \<Rightarrow> False
                   | Inr (name, p) \<Rightarrow> is_dir (es ! x) \<or> p \<le> parent_or_file_off (es ! x)) \<and>
                  (if is_dir (es ! x) then next_entry_or_len (es ! x) \<le> length es
                   else parent_or_file_off (es ! x) + next_entry_or_len (es ! x) \<le> length bs))))"

text \<open>
  What the claim about \<open>rename\<close> says of the whole tree. In the parent dict, reached through
  the keys \<open>parents\<close>, every entry is mapped by \<open>rename_key\<close>. In each dict on the way
  down every entry stays where it is, and only the value under the key that leads on is
  replaced by the renamed version of itself.
\<close>

fun rename_in_tree :: "string list \<Rightarrow> string \<Rightarrow> string \<Rightarrow> dict \<Rightarrow> dict" where
  "rename_in_tree [] old_key new_key d = map (rename_key old_key new_key) d"
| "rename_in_tree (k # parents) old_key new_key d =
     map (\<lambda>kv. if fst kv = k
               then (case snd kv of
                       Dir sub \<Rightarrow> (fst kv, Dir (rename_in_tree parents old_key new_key sub))
                     | File f \<Rightarrow> kv)
               else kv) d"

text \<open>
  An archive with several entries at both levels, built through the API: a directory \<open>d\<close>
  holding the files \<open>e\<close>, \<open>f\<close> and \<open>z\<close>, in this order, and a file \<open>g\<close> after it.
\<close>

definition family_arc :: arc where
  "family_arc =
     snd (append_file ''g'' [2] PNone
       (snd (append_file ''z'' [3] (PStr ''d'')
         (snd (append_file ''f'' [1] (PStr ''d'')
           (snd (append_file ''e'' [0] (PStr ''d'') new_arc)))))))"

text \<open>
  The \<open>arc_name\<close> property: \<open>Path(self._arc_name).stem\<close>, the display name. \<open>path_name\<close> is
  \<open>PurePosixPath(p).name\<close>, the last component of the path, where empty components and
  components that are a single dot do not count; the stem drops the suffix that starts at
  the last dot of the name when that dot is neither its first nor its last character.
\<close>

definition path_name :: "string \<Rightarrow> string" where
  "path_name p =
     (case filter (\<lambda>seg. seg \<noteq> [] \<and> seg \<noteq> ''.'') (split_on (CHR ''/'') p) of
        [] \<Rightarrow> []
      | seg # segs \<Rightarrow> last (seg # segs))"

definition path_stem :: "string \<Rightarrow> string" where
  "path_stem p =
     (let name = path_name p; i = rfind (CHR ''.'') name in
      if 0 < i \<and> i < int (length name) - 1 then take (nat i) name else name)"

definition arc_name_property :: "arc \<Rightarrow> string" where
  "arc_name_property a = path_stem (arc_name a)"

text \<open>
  The state of the flat index in which a reader sees the tree: the counter is not negative,
  and either a rebuild is pending or the cached with-directories map is what a rebuild
  would give.
\<close>

definition index_ok :: "arc \<Rightarrow> bool" where
  "index_ok a =
     (0 \<le> mod_count a \<and> (0 < mod_count a \<or> flat_file_struct a = flatten_file_map True a))"

text \<open>
  After \<open>a[k] = b\<close> the dict bound to \<open>k\<close> in \<open>a\<close> is the dict object of \<open>b\<close>. A later call
  on \<open>b\<close> that changes this dict by \<open>f\<close> is seen by \<open>a\<close> as follows: the tree under \<open>k\<close>
  changes by \<open>f\<close>, and nothing else of \<open>a\<close> does (the counter that the call increments is
  the one of \<open>b\<close>).
\<close>

definition shared_dict_write :: "string \<Rightarrow> (dict \<Rightarrow> dict) \<Rightarrow> arc \<Rightarrow> arc" where
  "shared_dict_write k f a =
     (case map_of (files a) k of
        Some (Dir d) \<Rightarrow> a\<lparr>files := dict_set (files a) k (Dir (f d))\<rparr>
      | _ \<Rightarrow> a)"

section \<open>Verified properties\<close>

subsection \<open>Rejected mutations\<close>

lemma dict_set_same: "map_of d k = Some v \<Longrightarrow> dict_set d k v = d"
  by (induction d) (auto split: if_splits)

lemma goc_from_empty: "fst (get_or_create_loop path []) = Inr []"
  by (induction path) (auto split: prod.splits)

lemma goc_error_unchanged:
  "fst (get_or_create_loop path d) = Inl e \<Longrightarrow> snd (get_or_create_loop path d) = d \<and> e = ValueError"
proof (induction path arbitrary: d)
  case Nil
  then show ?case by simp
next
  case (Cons seg path)
  show ?case
  proof (cases "map_of d seg")
    case None
    with Cons.prems goc_from_empty [of path] show ?thesis
      by (auto split: prod.splits)
  next
    case (Some n)
    show ?thesis
    proof (cases n)
      case (File f)
      with Some Cons.prems show ?thesis by simp
    next
      case (Dir sub)
      with Some Cons.prems Cons.IH [of sub] show ?thesis
        by (auto split: prod.splits simp: dict_set_same)
    qed
  qed
qed

lemma goc_ok_unchanged_or_empty:
  "fst (get_or_create_loop path d) = Inr t \<Longrightarrow> snd (get_or_create_loop path d) = d \<or> t = []"
proof (induction path arbitrary: d)
  case Nil
  then show ?case by simp
next
  case (Cons seg path)
  show ?case
  proof (cases "map_of d seg")
    case None
    with Cons.prems goc_from_empty [of path] show ?thesis
      by (auto split: prod.splits)
  next
    case (Some n)
    show ?thesis
    proof (cases n)
      case (File f)
      with Some Cons.prems show ?thesis by simp
    next
      case (Dir sub)
      with Some Cons.prems Cons.IH [of sub] show ?thesis
        by (auto split: prod.splits simp: dict_set_same)
    qed
  qed
qed

lemma god_error_unchanged:
  "fst (get_or_create_directory p d) = Inl e \<Longrightarrow> snd (get_or_create_directory p d) = d \<and> e = ValueError"
  by (cases p) (auto simp: get_or_create_directory_def dest: goc_error_unchanged)

lemma god_ok_unchanged_or_empty:
  "fst (get_or_create_directory p d) = Inr t \<Longrightarrow> snd (get_or_create_directory p d) = d \<or> t = []"
  by (cases p) (auto simp: get_or_create_directory_def dest: goc_ok_unchanged_or_empty)

lemma mkdir_error: "fst (mkdir p a) \<noteq> None \<Longrightarrow> snd (mkdir p a) = a"
  using god_error_unchanged [of p "files a"]
  by (auto simp: mkdir_def split: prod.splits sum.splits)

lemma append_internal_error: "fst (append_internal fn f p a) \<noteq> None \<Longrightarrow> snd (append_internal fn f p a) = a"
  using god_error_unchanged [of p "files a"] god_ok_unchanged_or_empty [of p "files a"]
  by (auto simp: append_internal_def dict_contains_def split: prod.splits sum.splits if_splits)

lemma rename_error: "fst (rename p n a) \<noteq> None \<Longrightarrow> snd (rename p n a) = a"
  by (auto simp: rename_def Let_def split: sum.splits if_splits)

lemma delete_error: "fst (delete p a) \<noteq> None \<Longrightarrow> snd (delete p a) = a"
  by (auto simp: delete_def Let_def split: sum.splits if_splits)

lemma dict_contains_lookup: "dict_contains k d \<Longrightarrow> \<exists>v. map_of d k = Some v"
  by (induction d) (auto simp: dict_contains_def)

lemma map_of_dict_set_same: "map_of (dict_set d k v) k = Some v"
  by (induction d) auto

lemma map_of_dict_del_same: "map_of (dict_del d k) k = None"
  by (induction d) (auto simp: dict_del_def)

lemma deleted_not_found:
  "walk_parents ps d = Inr cur \<Longrightarrow>
   getitem_loop (ps @ [k]) (Dir (update_dir ps (\<lambda>d. dict_del d k) d)) = Inl KeyError"
proof (induction ps arbitrary: d)
  case Nil
  then show ?case by (simp add: map_of_dict_del_same)
next
  case (Cons p ps)
  then show ?case
    by (auto split: option.splits node.splits simp: map_of_dict_set_same)
qed

lemma move_resolved:
  assumes "to_segments src \<noteq> []" and "to_segments dest \<noteq> []"
    and "walk_parents (butlast (to_segments src)) (files a) = Inr cur"
    and "map_of cur (last (to_segments src)) = Some el"
  shows "move src dest a =
     (let a1 = a\<lparr>files := update_dir (butlast (to_segments src))
                    (\<lambda>d. dict_del d (last (to_segments src))) (files a),
                  mod_count := mod_count a + 1\<rparr>;
          g = get_or_create_directory (PList (butlast (to_segments dest))) (files a1)
      in case fst g of
           Inl e \<Rightarrow> (Some e, a1\<lparr>files := snd g\<rparr>)
         | Inr dest_dict \<Rightarrow>
             if dict_contains (last (to_segments dest)) dest_dict
             then (Some KeyError, a1\<lparr>files := snd g\<rparr>)
             else (None, a1\<lparr>files := update_dir (butlast (to_segments dest))
                                     (\<lambda>d. dict_set d (last (to_segments dest)) el) (snd g),
                            mod_count := mod_count a1 + 1\<rparr>))"
proof -
  obtain r fs where g: "get_or_create_directory (PList (butlast (to_segments dest)))
      (update_dir (butlast (to_segments src)) (\<lambda>d. dict_del d (last (to_segments src))) (files a)) = (r, fs)"
    by (cases "get_or_create_directory (PList (butlast (to_segments dest)))
      (update_dir (butlast (to_segments src)) (\<lambda>d. dict_del d (last (to_segments src))) (files a))") auto
  show ?thesis
    unfolding move_def Let_def using assms g
    by (cases r) simp_all
qed

lemma delete_ok_D:
  assumes "fst (delete p a) = None"
  shows "to_segments p \<noteq> [] \<and> (\<exists>cur. walk_parents (butlast (to_segments p)) (files a) = Inr cur \<and>
           dict_contains (last (to_segments p)) cur) \<and>
         files (snd (delete p a)) = update_dir (butlast (to_segments p)) (\<lambda>d. dict_del d (last (to_segments p))) (files a)"
proof (cases "to_segments p = []")
  case True
  with assms show ?thesis by (simp add: delete_def)
next
  case False
  show ?thesis
  proof (cases "walk_parents (butlast (to_segments p)) (files a)")
    case (Inl e)
    with assms False show ?thesis by (simp add: delete_def Let_def)
  next
    case (Inr cur)
    with assms False show ?thesis by (simp add: delete_def Let_def split: if_splits)
  qed
qed

lemma move_dest_empty: "to_segments src \<noteq> [] \<Longrightarrow> to_segments dest = [] \<Longrightarrow> move src dest a = (Some ValueError, a)"
  unfolding move_def by simp

lemma move_dest_exists:
  assumes "fst (delete src a) = None" and "fst (move src dest a) = Some KeyError"
  shows "files (snd (move src dest a)) = files (snd (delete src a)) \<and>
     getitem_loop (to_segments src) (Dir (files (snd (move src dest a)))) = Inl KeyError"
proof -
  let ?s = "to_segments src"
  from delete_ok_D [OF assms(1)] obtain cur where ne: "?s \<noteq> []"
    and w: "walk_parents (butlast ?s) (files a) = Inr cur"
    and c: "dict_contains (last ?s) cur"
    and del: "files (snd (delete src a)) = update_dir (butlast ?s) (\<lambda>d. dict_del d (last ?s)) (files a)"
    by blast
  from dict_contains_lookup [OF c] obtain el where el: "map_of cur (last ?s) = Some el" ..
  have nd: "to_segments dest \<noteq> []"
    using move_dest_empty [OF ne, of dest a] assms(2) by auto
  let ?fs1 = "update_dir (butlast ?s) (\<lambda>d. dict_del d (last ?s)) (files a)"
  let ?g = "get_or_create_directory (PList (butlast (to_segments dest))) ?fs1"
  note mv = move_resolved [OF ne nd w el]
  have "files (snd (move src dest a)) = ?fs1"
  proof (cases "fst ?g")
    case (Inl e)
    from god_error_unchanged [OF Inl] have "snd ?g = ?fs1" by simp
    with Inl mv show ?thesis by (simp add: Let_def)
  next
    case (Inr t)
    have ct: "dict_contains (last (to_segments dest)) t"
    proof (rule ccontr)
      assume "\<not> ?thesis"
      with Inr mv have "fst (move src dest a) = None" by (simp add: Let_def)
      with assms(2) show False by simp
    qed
    then have "t \<noteq> []" by (auto simp: dict_contains_def)
    with god_ok_unchanged_or_empty [OF Inr] have "snd ?g = ?fs1" by blast
    with Inr ct mv show ?thesis by (simp add: Let_def)
  qed
  then have 1: "files (snd (move src dest a)) = files (snd (delete src a))"
    using del by simp
  have "getitem_loop (butlast ?s @ [last ?s]) (Dir ?fs1) = Inl KeyError"
    by (rule deleted_not_found [OF w])
  with ne del 1 show ?thesis by simp
qed

text \<open>
  Claim C3. A call of \<open>mkdir\<close>, \<open>append_file\<close>, \<open>rename\<close> or \<open>delete\<close> that raises
  leaves the tree as it was before the call. A \<open>move\<close> whose source resolves (so that
  \<open>delete\<close> of the source would succeed) and that then raises the \<open>KeyError\<close> of the
  destination-name check leaves the tree that deleting the source gives: the source node is
  gone and looking it up raises \<open>KeyError\<close>.
\<close>

theorem rejected_mutation_leaves_tree:
  "(fst (mkdir p1 a) \<noteq> None \<longrightarrow> files (snd (mkdir p1 a)) = files a) \<and>
   (fst (append_file fn bs p2 a) \<noteq> None \<longrightarrow> files (snd (append_file fn bs p2 a)) = files a) \<and>
   (fst (rename p3 nn a) \<noteq> None \<longrightarrow> files (snd (rename p3 nn a)) = files a) \<and>
   (fst (delete p4 a) \<noteq> None \<longrightarrow> files (snd (delete p4 a)) = files a) \<and>
   (fst (delete src a) = None \<and> fst (move src dest a) = Some KeyError \<longrightarrow>
      files (snd (move src dest a)) = files (snd (delete src a)) \<and>
      getitem_loop (to_segments src) (Dir (files (snd (move src dest a)))) = Inl KeyError)"
proof (intro conjI impI)
  assume "fst (mkdir p1 a) \<noteq> None"
  then show "files (snd (mkdir p1 a)) = files a" by (simp add: mkdir_error)
next
  assume "fst (append_file fn bs p2 a) \<noteq> None"
  then show "files (snd (append_file fn bs p2 a)) = files a"
    unfolding append_file_def by (simp add: append_internal_error)
next
  assume "fst (rename p3 nn a) \<noteq> None"
  then show "files (snd (rename p3 nn a)) = files a" by (simp add: rename_error)
next
  assume "fst (delete p4 a) \<noteq> None"
  then show "files (snd (delete p4 a)) = files a" by (simp add: delete_error)
next
  assume h: "fst (delete src a) = None \<and> fst (move src dest a) = Some KeyError"
  then show "files (snd (move src dest a)) = files (snd (delete src a))"
    using move_dest_exists [of src a dest] by blast
  from h show "getitem_loop (to_segments src) (Dir (files (snd (move src dest a)))) = Inl KeyError"
    using move_dest_exists [of src a dest] by blast
qed

lemma example_arc_eq:
  "example_arc = \<lparr> mod_count = 2, flat_file_struct = [], only_files = [],
       created_manually = True, arc_name = ''ARC_FILE'',
       files = [(''d'', Dir [(''f'', File (ArcFile ''f'' [1]))]), (''g'', File (ArcFile ''g'' [2]))] \<rparr>"
  by (simp add: example_arc_def append_file_def append_internal_def get_or_create_directory_def
      path_segments_def target_path_def to_segments_def dict_contains_def new_arc_def)

lemma ps_g: "path_segments ''g'' = [''g'']" by (simp add: path_segments_def)
lemma ps_zz: "path_segments ''zz'' = [''zz'']" by (simp add: path_segments_def)
lemma ps_d: "path_segments ''d'' = [''d'']" by (simp add: path_segments_def)
lemma ps_df: "path_segments ''d/f'' = [''d'', ''f'']" by (simp add: path_segments_def)

text \<open>The five cases of C3 on the example archive.\<close>

theorem rejected_mutation_witness:
  "fst (mkdir (PStr ''g'') example_arc) \<noteq> None \<and>
   files (snd (mkdir (PStr ''g'') example_arc)) = files example_arc \<and>
   fst (append_file ''f'' [3] (PStr ''d'') example_arc) \<noteq> None \<and>
   files (snd (append_file ''f'' [3] (PStr ''d'') example_arc)) = files example_arc \<and>
   fst (rename (PStr ''zz'') ''y'' example_arc) \<noteq> None \<and>
   files (snd (rename (PStr ''zz'') ''y'' example_arc)) = files example_arc \<and>
   fst (delete (PStr ''zz'') example_arc) \<noteq> None \<and>
   files (snd (delete (PStr ''zz'') example_arc)) = files example_arc \<and>
   fst (delete (PStr ''g'') example_arc) = None \<and>
   fst (move (PStr ''g'') (PStr ''d/f'') example_arc) = Some KeyError \<and>
   files (snd (move (PStr ''g'') (PStr ''d/f'') example_arc)) = files (snd (delete (PStr ''g'') example_arc)) \<and>
   getitem_loop (to_segments (PStr ''g'')) (Dir (files (snd (move (PStr ''g'') (PStr ''d/f'') example_arc)))) = Inl KeyError"
proof -
  have h1: "fst (mkdir (PStr ''g'') example_arc) \<noteq> None"
    by (simp add: mkdir_def get_or_create_directory_def ps_g example_arc_eq)
  have h2: "fst (append_file ''f'' [3] (PStr ''d'') example_arc) \<noteq> None"
    by (simp add: append_file_def append_internal_def get_or_create_directory_def ps_d
          example_arc_eq dict_contains_def)
  have h3: "fst (rename (PStr ''zz'') ''y'' example_arc) \<noteq> None"
    by (simp add: Let_def rename_def to_segments_def ps_zz example_arc_eq dict_contains_def)
  have h4: "fst (delete (PStr ''zz'') example_arc) \<noteq> None"
    by (simp add: Let_def delete_def to_segments_def ps_zz example_arc_eq dict_contains_def)
  have h5: "fst (delete (PStr ''g'') example_arc) = None"
    by (simp add: Let_def delete_def to_segments_def ps_g example_arc_eq dict_contains_def)
  have h6: "fst (move (PStr ''g'') (PStr ''d/f'') example_arc) = Some KeyError"
    by (simp add: Let_def move_def to_segments_def ps_g ps_df example_arc_eq dict_contains_def
          dict_del_def get_or_create_directory_def)
  show ?thesis
    using h1 h2 h3 h4 h5 h6
      rejected_mutation_leaves_tree [of "PStr ''g''" example_arc "''f''" "[3]" "PStr ''d''"
        "PStr ''zz''" "''y''" "PStr ''zz''" "PStr ''g''" "PStr ''d/f''"]
    by blast
qed

subsection \<open>Renaming in place\<close>

lemma list_index_update:
  "distinct keys \<Longrightarrow> list_index keys old = Some idx \<Longrightarrow>
   keys[idx := new] = map (\<lambda>k. if k = old then new else k) keys"
proof (induction keys arbitrary: idx)
  case Nil
  then show ?case by simp
next
  case (Cons k keys)
  show ?case
  proof (cases "k = old")
    case True
    with Cons.prems have "idx = 0" and "old \<notin> set keys" by auto
    then have "map (\<lambda>k. if k = old then new else k) keys = keys"
      by (induction keys) auto
    with True \<open>idx = 0\<close> show ?thesis by simp
  next
    case False
    with Cons.prems obtain j where j: "list_index keys old = Some j" and idx: "idx = Suc j"
      by auto
    with Cons.IH [of j] Cons.prems False show ?thesis by simp
  qed
qed

lemma dict_set_fresh: "k \<notin> set (map fst d) \<Longrightarrow> dict_set d k v = d @ [(k, v)]"
  by (induction d) auto

lemma rebuild_appends:
  "distinct ks \<Longrightarrow> set ks \<inter> set (map fst nd) = {} \<Longrightarrow>
   \<forall>k \<in> set ks. k \<noteq> new \<longrightarrow> map_of d k = Some (g k) \<Longrightarrow>
   rebuild ks new val d nd = Inr (nd @ map (\<lambda>k. if k = new then (new, val) else (k, g k)) ks)"
proof (induction ks arbitrary: nd)
  case Nil
  then show ?case by simp
next
  case (Cons k ks)
  from Cons.prems have fresh: "k \<notin> set (map fst nd)" by auto
  show ?case
  proof (cases "k = new")
    case True
    have "rebuild ks new val d (nd @ [(new, val)]) =
        Inr ((nd @ [(new, val)]) @ map (\<lambda>k. if k = new then (new, val) else (k, g k)) ks)"
      using Cons.prems True by (intro Cons.IH) auto
    with True fresh show ?thesis by (simp add: dict_set_fresh)
  next
    case False
    have "rebuild ks new val d (nd @ [(k, g k)]) =
        Inr ((nd @ [(k, g k)]) @ map (\<lambda>k. if k = new then (new, val) else (k, g k)) ks)"
      using Cons.prems False by (intro Cons.IH) auto
    with False fresh Cons.prems show ?thesis by (simp add: dict_set_fresh)
  qed
qed

lemma map_of_dict_del_other: "k' \<noteq> k \<Longrightarrow> map_of (dict_del d k) k' = map_of d k'"
  by (induction d) (auto simp: dict_del_def)

lemma list_index_Some: "k \<in> set keys \<Longrightarrow> \<exists>i. list_index keys k = Some i"
  by (induction keys) auto

lemma rename_dict_key_in_place_ok:
  assumes dist: "distinct (map fst d)"
    and old: "dict_contains old_key d" and new: "\<not> dict_contains new_key d"
  shows "rename_dict_key_in_place d old_key new_key = Inr (map (rename_key old_key new_key) d)"
proof -
  let ?keys = "map fst d"
  from old obtain idx where idx: "list_index ?keys old_key = Some idx"
    using list_index_Some [of old_key ?keys] by (auto simp: dict_contains_def)
  from dict_contains_lookup [OF old] obtain val where val: "map_of d old_key = Some val" ..
  let ?ks = "map (\<lambda>k. if k = old_key then new_key else k) ?keys"
  have upd: "?keys[idx := new_key] = ?ks"
    by (rule list_index_update [OF dist idx])
  have inj: "inj_on (\<lambda>k. if k = old_key then new_key else k) (set ?keys)"
    using new by (auto simp: inj_on_def dict_contains_def)
  have d1: "distinct ?ks"
    using dist inj by (subst distinct_map) simp
  have look: "\<forall>k \<in> set ?ks. k \<noteq> new_key \<longrightarrow> map_of (dict_del d old_key) k = Some (the (map_of d k))"
  proof (intro ballI impI)
    fix k assume "k \<in> set ?ks" and "k \<noteq> new_key"
    then have "k \<in> set ?keys" and "k \<noteq> old_key" by (auto split: if_splits)
    then show "map_of (dict_del d old_key) k = Some (the (map_of d k))"
      by (auto simp: map_of_dict_del_other dest: weak_map_of_SomeI)
  qed
  have "rebuild ?ks new_key val (dict_del d old_key) [] =
      Inr ([] @ map (\<lambda>k. if k = new_key then (new_key, val) else (k, the (map_of d k))) ?ks)"
    by (rule rebuild_appends [OF d1 _ look]) simp
  moreover have "map (\<lambda>k. if k = new_key then (new_key, val) else (k, the (map_of d k))) ?ks
      = map (rename_key old_key new_key) d"
  proof (rule nth_equalityI)
    show "length (map (\<lambda>k. if k = new_key then (new_key, val) else (k, the (map_of d k))) ?ks)
        = length (map (rename_key old_key new_key) d)" by simp
  next
    fix i assume "i < length (map (\<lambda>k. if k = new_key then (new_key, val) else (k, the (map_of d k))) ?ks)"
    then have i: "i < length d" by simp
    then have mem: "d ! i \<in> set d" by simp
    have m: "map_of d (fst (d ! i)) = Some (snd (d ! i))"
      using map_of_is_SomeI [OF dist, of "fst (d ! i)" "snd (d ! i)"] mem by simp
    have nn: "fst (d ! i) \<noteq> new_key"
      using new mem by (auto simp: dict_contains_def)
    show "map (\<lambda>k. if k = new_key then (new_key, val) else (k, the (map_of d k))) ?ks ! i
        = map (rename_key old_key new_key) d ! i"
      using i m nn val by (cases "d ! i") (auto simp: rename_key_def)
  qed
  ultimately show ?thesis
    using old new idx val upd by (simp add: rename_dict_key_in_place_def)
qed

lemma map_of_dict_set: "map_of (dict_set d k v) k' = (if k' = k then Some v else map_of d k')"
  by (induction d) auto

lemma walk_parents_get_dir: "walk_parents ps fs = Inr d \<longleftrightarrow> get_dir ps fs = Some d"
  by (induction ps arbitrary: fs) (auto split: option.splits node.splits)

lemma get_dir_wf: "wf_node (Dir fs) \<Longrightarrow> get_dir ps fs = Some d \<Longrightarrow> wf_node (Dir d)"
proof (induction ps arbitrary: fs)
  case Nil
  then show ?case by simp
next
  case (Cons p ps)
  from Cons.prems(2) obtain sub where sub: "map_of fs p = Some (Dir sub)" and g: "get_dir ps sub = Some d"
    by (auto split: option.splits node.splits)
  from sub have "(p, Dir sub) \<in> set fs" by (rule map_of_SomeD)
  with Cons.prems(1) have "wf_node (Dir sub)" by fastforce
  then show ?case using g by (rule Cons.IH)
qed

lemma get_dir_update_dir:
  "get_dir ps fs = Some d \<Longrightarrow> get_dir ps (update_dir ps f fs) = Some (f d)"
  by (induction ps arbitrary: fs) (auto split: option.splits node.splits simp: map_of_dict_set)

lemma getitem_through_dir:
  "get_dir ps fs = Some d \<Longrightarrow> getitem_loop (ps @ r) (Dir fs) = getitem_loop r (Dir d)"
  by (induction ps arbitrary: fs) (auto split: option.splits node.splits)

lemma getitem_update_dir_other:
  "\<not> prefix q ps \<Longrightarrow> \<not> prefix ps q \<Longrightarrow>
   getitem_loop q (Dir (update_dir ps f fs)) = getitem_loop q (Dir fs)"
proof (induction ps arbitrary: q fs)
  case Nil
  then show ?case by simp
next
  case (Cons p ps)
  from Cons.prems(1) obtain k q' where q: "q = k # q'" by (cases q) auto
  show ?case
  proof (cases "map_of fs p")
    case None
    then show ?thesis by simp
  next
    case (Some n)
    show ?thesis
    proof (cases n)
      case (File f)
      with Some show ?thesis by simp
    next
      case (Dir sub)
      show ?thesis
      proof (cases "k = p")
        case True
        with Cons.prems q have "\<not> prefix q' ps" and "\<not> prefix ps q'" by auto
        then have "getitem_loop q' (Dir (update_dir ps f sub)) = getitem_loop q' (Dir sub)"
          by (rule Cons.IH)
        with True q Some Dir show ?thesis by (simp add: map_of_dict_set)
      next
        case False
        with q Some Dir show ?thesis by (simp add: map_of_dict_set)
      qed
    qed
  qed
qed

lemma map_of_rename_key_other:
  "k \<noteq> old_key \<Longrightarrow> k \<noteq> new_key \<Longrightarrow>
   map_of (map (rename_key old_key new_key) d) k = map_of d k"
  by (induction d) (auto simp: rename_key_def)

lemma dict_set_present:
  "distinct (map fst d) \<Longrightarrow> k \<in> set (map fst d) \<Longrightarrow>
   dict_set d k v = map (\<lambda>kv. if fst kv = k then (fst kv, v) else kv) d"
proof (induction d)
  case Nil
  then show ?case by simp
next
  case (Cons x d)
  show ?case
  proof (cases "fst x = k")
    case True
    with Cons.prems(1) have "k \<notin> set (map fst d)" by auto
    then have "map (\<lambda>kv. if fst kv = k then (fst kv, v) else kv) d = d"
      by (induction d) auto
    with True show ?thesis by (cases x) simp
  next
    case False
    with Cons.prems have "distinct (map fst d)" and "k \<in> set (map fst d)" by auto
    then have "dict_set d k v = map (\<lambda>kv. if fst kv = k then (fst kv, v) else kv) d"
      by (rule Cons.IH)
    with False show ?thesis by (cases x) simp
  qed
qed

lemma update_dir_rename_in_tree:
  "wf_node (Dir fs) \<Longrightarrow> get_dir ps fs = Some d \<Longrightarrow>
   update_dir ps (\<lambda>_. map (rename_key old_key new_key) d) fs = rename_in_tree ps old_key new_key fs"
proof (induction ps arbitrary: fs)
  case Nil
  then show ?case by simp
next
  case (Cons p ps)
  from Cons.prems(2) obtain sub where sub: "map_of fs p = Some (Dir sub)" and g: "get_dir ps sub = Some d"
    by (auto split: option.splits node.splits)
  from sub have mem: "(p, Dir sub) \<in> set fs" by (rule map_of_SomeD)
  with Cons.prems(1) have wfs: "wf_node (Dir sub)" by fastforce
  from Cons.prems(1) have dist: "distinct (map fst fs)" by simp
  from mem have pin: "p \<in> set (map fst fs)" by force
  have ih: "update_dir ps (\<lambda>_. map (rename_key old_key new_key) d) sub = rename_in_tree ps old_key new_key sub"
    using wfs g by (rule Cons.IH)
  have only: "snd kv = Dir sub" if "kv \<in> set fs" "fst kv = p" for kv
  proof -
    from that have "(p, snd kv) \<in> set fs" by (cases kv) auto
    with dist have "map_of fs p = Some (snd kv)" by simp
    with sub show ?thesis by simp
  qed
  have "update_dir (p # ps) (\<lambda>_. map (rename_key old_key new_key) d) fs
      = dict_set fs p (Dir (rename_in_tree ps old_key new_key sub))"
    using sub ih by simp
  also have "\<dots> = map (\<lambda>kv. if fst kv = p then (fst kv, Dir (rename_in_tree ps old_key new_key sub)) else kv) fs"
    using dist pin by (rule dict_set_present)
  also have "\<dots> = rename_in_tree (p # ps) old_key new_key fs"
    using only by (auto intro!: map_cong split: node.splits)
  finally show ?case .
qed

lemma family_arc_eq:
  "family_arc = \<lparr> mod_count = 4, flat_file_struct = [], only_files = [],
       created_manually = True, arc_name = ''ARC_FILE'',
       files = [(''d'', Dir [(''e'', File (ArcFile ''e'' [0])), (''f'', File (ArcFile ''f'' [1])),
                             (''z'', File (ArcFile ''z'' [3]))]),
                (''g'', File (ArcFile ''g'' [2]))] \<rparr>"
  by (simp add: family_arc_def append_file_def append_internal_def get_or_create_directory_def
      path_segments_def target_path_def to_segments_def dict_contains_def new_arc_def)

text \<open>
  Claim C9. After a successful \<open>rename\<close> the archive is the old archive with the counter
  incremented and the tree replaced by \<open>rename_in_tree\<close> of the old tree: in the parent dict
  the renamed key is replaced at its position by the new name, with the same entries in the
  same order and every value (the renamed node's too) as before; in every dict above it the
  entries, their order and all values but the one on the path are as before. The parent
  dict is read back through \<open>get_dir\<close>, and every key path that does not lead to the parent
  dict or one of its ancestors, and does not pass through the old or the new name in the
  parent, resolves to what it resolved to before.
\<close>

theorem rename_replaces_key_in_place:
  assumes wf: "wf_node (Dir (files a))"
    and ok: "fst (rename path new_name a) = None"
  shows "snd (rename path new_name a) =
           a\<lparr>files := rename_in_tree (butlast (to_segments path)) (last (to_segments path))
                        new_name (files a),
             mod_count := mod_count a + 1\<rparr> \<and>
         (\<exists>d. get_dir (butlast (to_segments path)) (files a) = Some d \<and>
           dict_contains (last (to_segments path)) d \<and>
           \<not> dict_contains new_name d \<and>
           get_dir (butlast (to_segments path)) (files (snd (rename path new_name a)))
             = Some (map (rename_key (last (to_segments path)) new_name) d) \<and>
           map fst (map (rename_key (last (to_segments path)) new_name) d)
             = map (\<lambda>k. if k = last (to_segments path) then new_name else k) (map fst d) \<and>
           map snd (map (rename_key (last (to_segments path)) new_name) d) = map snd d \<and>
           (\<forall>q. \<not> prefix q (butlast (to_segments path)) \<and>
                \<not> prefix (butlast (to_segments path) @ [last (to_segments path)]) q \<and>
                \<not> prefix (butlast (to_segments path) @ [new_name]) q \<longrightarrow>
                getitem_loop q (Dir (files (snd (rename path new_name a))))
                  = getitem_loop q (Dir (files a))))"
proof -
  let ?ps = "butlast (to_segments path)" and ?old = "last (to_segments path)"
  from ok have ne: "to_segments path \<noteq> []"
    by (auto simp: rename_def Let_def split: if_splits)
  from ok ne obtain d where w: "walk_parents ?ps (files a) = Inr d"
    by (cases "walk_parents ?ps (files a)") (auto simp: rename_def Let_def)
  from ok ne w have c: "dict_contains ?old d"
    by (auto simp: rename_def Let_def split: if_splits)
  from ok ne w c obtain d' where r: "rename_dict_key_in_place d ?old new_name = Inr d'"
    by (cases "rename_dict_key_in_place d ?old new_name") (auto simp: rename_def Let_def)
  from r c have nc: "\<not> dict_contains new_name d"
    by (auto simp: rename_dict_key_in_place_def split: if_splits)
  from w have g: "get_dir ?ps (files a) = Some d" by (simp add: walk_parents_get_dir)
  from get_dir_wf [OF wf g] have dist: "distinct (map fst d)" by simp
  let ?d' = "map (rename_key ?old new_name) d"
  from rename_dict_key_in_place_ok [OF dist c nc] r have d': "d' = ?d'" by simp
  have res: "snd (rename path new_name a) =
      a\<lparr>files := update_dir ?ps (\<lambda>_. ?d') (files a), mod_count := mod_count a + 1\<rparr>"
    using ne w c r d' by (simp add: rename_def Let_def)
  then have fs: "files (snd (rename path new_name a)) = update_dir ?ps (\<lambda>_. ?d') (files a)"
    by simp
  have whole: "snd (rename path new_name a) =
      a\<lparr>files := rename_in_tree ?ps ?old new_name (files a), mod_count := mod_count a + 1\<rparr>"
    unfolding res by (simp add: update_dir_rename_in_tree [OF wf g])
  have g': "get_dir ?ps (files (snd (rename path new_name a))) = Some ?d'"
    unfolding fs by (rule get_dir_update_dir [OF g])
  have keys: "map fst ?d' = map (\<lambda>k. if k = ?old then new_name else k) (map fst d)"
    by (simp add: rename_key_def comp_def)
  have vals: "map snd ?d' = map snd d"
    by (simp add: rename_key_def comp_def)
  have frame: "getitem_loop q (Dir (files (snd (rename path new_name a)))) = getitem_loop q (Dir (files a))"
    if q: "\<not> prefix q ?ps" "\<not> prefix (?ps @ [?old]) q" "\<not> prefix (?ps @ [new_name]) q" for q
  proof (cases "prefix ?ps q")
    case False
    with q(1) show ?thesis unfolding fs by (simp add: getitem_update_dir_other)
  next
    case True
    then obtain r where qr: "q = ?ps @ r" by (auto simp: prefix_def)
    with q(1) obtain k r' where r: "r = k # r'" by (cases r) auto
    from q(2,3) qr r have k: "k \<noteq> ?old" "k \<noteq> new_name" by auto
    have "getitem_loop q (Dir (files (snd (rename path new_name a)))) = getitem_loop r (Dir ?d')"
      unfolding qr by (rule getitem_through_dir [OF g'])
    also have "\<dots> = getitem_loop r (Dir d)"
      using k r by (simp add: map_of_rename_key_other)
    also have "\<dots> = getitem_loop q (Dir (files a))"
      unfolding qr by (rule getitem_through_dir [OF g, symmetric])
    finally show ?thesis .
  qed
  from g c nc g' keys vals frame
  have "\<exists>d. get_dir ?ps (files a) = Some d \<and> dict_contains ?old d \<and> \<not> dict_contains new_name d \<and>
          get_dir ?ps (files (snd (rename path new_name a))) = Some (map (rename_key ?old new_name) d) \<and>
          map fst (map (rename_key ?old new_name) d)
            = map (\<lambda>k. if k = ?old then new_name else k) (map fst d) \<and>
          map snd (map (rename_key ?old new_name) d) = map snd d \<and>
          (\<forall>q. \<not> prefix q ?ps \<and> \<not> prefix (?ps @ [?old]) q \<and> \<not> prefix (?ps @ [new_name]) q \<longrightarrow>
               getitem_loop q (Dir (files (snd (rename path new_name a)))) = getitem_loop q (Dir (files a)))"
    by blast
  with whole show ?thesis by simp
qed

text \<open>
  Renaming \<open>d/f\<close> to \<open>h\<close> where \<open>d\<close> holds \<open>e\<close>, \<open>f\<close>, \<open>z\<close> and is followed by \<open>g\<close>: the new
  name stands between \<open>e\<close> and \<open>z\<close>, and \<open>d\<close> still stands before \<open>g\<close>.
\<close>

theorem rename_replaces_key_witness:
  "wf_node (Dir (files family_arc)) \<and>
   fst (rename (PStr ''d/f'') ''h'' family_arc) = None \<and>
   files family_arc =
     [(''d'', Dir [(''e'', File (ArcFile ''e'' [0])), (''f'', File (ArcFile ''f'' [1])),
                   (''z'', File (ArcFile ''z'' [3]))]),
      (''g'', File (ArcFile ''g'' [2]))] \<and>
   files (snd (rename (PStr ''d/f'') ''h'' family_arc)) =
     [(''d'', Dir [(''e'', File (ArcFile ''e'' [0])), (''h'', File (ArcFile ''f'' [1])),
                   (''z'', File (ArcFile ''z'' [3]))]),
      (''g'', File (ArcFile ''g'' [2]))] \<and>
   mod_count (snd (rename (PStr ''d/f'') ''h'' family_arc)) = 5"
proof -
  have wf: "wf_node (Dir (files family_arc))"
    by (simp add: family_arc_eq)
  have seg: "to_segments (PStr ''d/f'') = [''d'', ''f'']"
    by (simp add: to_segments_def ps_df)
  have ok: "fst (rename (PStr ''d/f'') ''h'' family_arc) = None"
    by (simp add: rename_def Let_def seg rename_dict_key_in_place_def dict_contains_def dict_del_def
        family_arc_eq)
  from rename_replaces_key_in_place [OF wf ok]
  have "snd (rename (PStr ''d/f'') ''h'' family_arc) =
      family_arc\<lparr>files := rename_in_tree (butlast (to_segments (PStr ''d/f'')))
                     (last (to_segments (PStr ''d/f''))) ''h'' (files family_arc),
                 mod_count := mod_count family_arc + 1\<rparr>"
    by (rule conjunct1)
  then have r: "snd (rename (PStr ''d/f'') ''h'' family_arc) =
      family_arc\<lparr>files := [(''d'', Dir [(''e'', File (ArcFile ''e'' [0])), (''h'', File (ArcFile ''f'' [1])),
                   (''z'', File (ArcFile ''z'' [3]))]),
      (''g'', File (ArcFile ''g'' [2]))], mod_count := 5\<rparr>"
    by (simp add: seg family_arc_eq rename_key_def)
  have fs: "files family_arc =
     [(''d'', Dir [(''e'', File (ArcFile ''e'' [0])), (''f'', File (ArcFile ''f'' [1])),
                   (''z'', File (ArcFile ''z'' [3]))]),
      (''g'', File (ArcFile ''g'' [2]))]"
    by (simp add: family_arc_eq)
  from wf ok fs show ?thesis unfolding r by simp
qed

subsection \<open>Path-indexed assignment\<close>

lemma keys_dict_set_present:
  "map_of d k = Some v' \<Longrightarrow> map fst (dict_set d k v) = map fst d"
  by (induction d) (auto split: if_splits)

text \<open>
  Claim C10. When the key names a top-level directory, assigning an \<open>ArcFile\<close> puts the
  file into that directory under the file's own name: the counter is incremented, the
  directory keeps its other entries, and the key still names the directory. No other value
  is stored there: \<open>None\<close>, an archive and a nameless object raise \<open>AttributeError\<close> and
  leave the tree as it was. Whatever the value, after the call the key names the directory
  it named before (with the file added, for an \<open>ArcFile\<close>), the keys of the root are the same
  in the same order, and every other key is bound as before. When the key is absent or names
  a file, the assignment binds the key itself: to an empty directory for \<open>None\<close>, to the
  other archive's tree for an archive, to the file for an \<open>ArcFile\<close>; a nameless object
  raises \<open>ValueError\<close> and leaves the archive as it was.
\<close>

theorem setitem_directory_or_binding:
  "(map_of (files a) k1 = Some (Dir sub) \<longrightarrow>
      setitem (KStr k1) (VFile f1) a =
        (None, a\<lparr>mod_count := mod_count a + 1,
                  files := dict_set (files a) k1 (Dir (dict_set sub (af_name f1) (File f1)))\<rparr>) \<and>
      map_of (files (snd (setitem (KStr k1) (VFile f1) a))) k1
        = Some (Dir (dict_set sub (af_name f1) (File f1))) \<and>
      map_of (dict_set sub (af_name f1) (File f1)) (af_name f1) = Some (File f1) \<and>
      (\<forall>k'. k' \<noteq> af_name f1 \<longrightarrow> map_of (dict_set sub (af_name f1) (File f1)) k' = map_of sub k') \<and>
      setitem (KStr k1) VNone a = (Some AttributeError, a\<lparr>mod_count := mod_count a + 1\<rparr>) \<and>
      setitem (KStr k1) (VArc b) a = (Some AttributeError, a\<lparr>mod_count := mod_count a + 1\<rparr>) \<and>
      setitem (KStr k1) VNameless a = (Some AttributeError, a\<lparr>mod_count := mod_count a + 1\<rparr>) \<and>
      (\<forall>v. (\<exists>f. v = VFile f) \<or> map_of (files (snd (setitem (KStr k1) v a))) k1 = Some (Dir sub)) \<and>
      (\<forall>v. map fst (files (snd (setitem (KStr k1) v a))) = map fst (files a)) \<and>
      (\<forall>v k'. k' \<noteq> k1 \<longrightarrow>
          map_of (files (snd (setitem (KStr k1) v a))) k' = map_of (files a) k')) \<and>
   (map_of (files a) k2 = None \<or> (\<exists>g. map_of (files a) k2 = Some (File g)) \<longrightarrow>
      setitem (KStr k2) VNone a =
        (None, a\<lparr>mod_count := mod_count a + 1, files := dict_set (files a) k2 (Dir [])\<rparr>) \<and>
      setitem (KStr k2) (VArc b) a =
        (None, a\<lparr>mod_count := mod_count a + 1, files := dict_set (files a) k2 (Dir (files b))\<rparr>) \<and>
      setitem (KStr k2) (VFile f2) a =
        (None, a\<lparr>mod_count := mod_count a + 1, files := dict_set (files a) k2 (File f2)\<rparr>) \<and>
      map_of (files (snd (setitem (KStr k2) VNone a))) k2 = Some (Dir []) \<and>
      map_of (files (snd (setitem (KStr k2) (VArc b) a))) k2 = Some (Dir (files b)) \<and>
      map_of (files (snd (setitem (KStr k2) (VFile f2) a))) k2 = Some (File f2) \<and>
      setitem (KStr k2) VNameless a = (Some ValueError, a))"
proof (intro conjI impI)
  assume d: "map_of (files a) k1 = Some (Dir sub)"
  then show 1: "setitem (KStr k1) (VFile f1) a =
        (None, a\<lparr>mod_count := mod_count a + 1,
                  files := dict_set (files a) k1 (Dir (dict_set sub (af_name f1) (File f1)))\<rparr>)"
    by (simp add: setitem_def)
  show "map_of (files (snd (setitem (KStr k1) (VFile f1) a))) k1
        = Some (Dir (dict_set sub (af_name f1) (File f1)))"
    unfolding 1 by (simp add: map_of_dict_set)
  show "map_of (dict_set sub (af_name f1) (File f1)) (af_name f1) = Some (File f1)"
    by (simp add: map_of_dict_set)
  show "\<forall>k'. k' \<noteq> af_name f1 \<longrightarrow> map_of (dict_set sub (af_name f1) (File f1)) k' = map_of sub k'"
    by (simp add: map_of_dict_set)
  from d show "setitem (KStr k1) VNone a = (Some AttributeError, a\<lparr>mod_count := mod_count a + 1\<rparr>)"
    by (simp add: setitem_def)
  from d show "setitem (KStr k1) (VArc b) a = (Some AttributeError, a\<lparr>mod_count := mod_count a + 1\<rparr>)"
    by (simp add: setitem_def)
  from d show "setitem (KStr k1) VNameless a = (Some AttributeError, a\<lparr>mod_count := mod_count a + 1\<rparr>)"
    by (simp add: setitem_def)
  show "\<forall>v. (\<exists>f. v = VFile f) \<or> map_of (files (snd (setitem (KStr k1) v a))) k1 = Some (Dir sub)"
  proof
    fix v
    show "(\<exists>f. v = VFile f) \<or> map_of (files (snd (setitem (KStr k1) v a))) k1 = Some (Dir sub)"
      using d by (cases v) (simp_all add: setitem_def)
  qed
  show "\<forall>v. map fst (files (snd (setitem (KStr k1) v a))) = map fst (files a)"
  proof
    fix v
    show "map fst (files (snd (setitem (KStr k1) v a))) = map fst (files a)"
      using d by (cases v) (simp_all add: setitem_def keys_dict_set_present)
  qed
  show "\<forall>v k'. k' \<noteq> k1 \<longrightarrow>
          map_of (files (snd (setitem (KStr k1) v a))) k' = map_of (files a) k'"
  proof (intro allI impI)
    fix v k'
    assume "k' \<noteq> k1"
    then show "map_of (files (snd (setitem (KStr k1) v a))) k' = map_of (files a) k'"
      using d by (cases v) (simp_all add: setitem_def map_of_dict_set)
  qed
next
  assume h: "map_of (files a) k2 = None \<or> (\<exists>g. map_of (files a) k2 = Some (File g))"
  then show 1: "setitem (KStr k2) VNone a =
        (None, a\<lparr>mod_count := mod_count a + 1, files := dict_set (files a) k2 (Dir [])\<rparr>)"
    by (auto simp: setitem_def)
  from h show 2: "setitem (KStr k2) (VArc b) a =
        (None, a\<lparr>mod_count := mod_count a + 1, files := dict_set (files a) k2 (Dir (files b))\<rparr>)"
    by (auto simp: setitem_def)
  from h show 3: "setitem (KStr k2) (VFile f2) a =
        (None, a\<lparr>mod_count := mod_count a + 1, files := dict_set (files a) k2 (File f2)\<rparr>)"
    by (auto simp: setitem_def)
  show "map_of (files (snd (setitem (KStr k2) VNone a))) k2 = Some (Dir [])"
    unfolding 1 by (simp add: map_of_dict_set)
  show "map_of (files (snd (setitem (KStr k2) (VArc b) a))) k2 = Some (Dir (files b))"
    unfolding 2 by (simp add: map_of_dict_set)
  show "map_of (files (snd (setitem (KStr k2) (VFile f2) a))) k2 = Some (File f2)"
    unfolding 3 by (simp add: map_of_dict_set)
  from h show "setitem (KStr k2) VNameless a = (Some ValueError, a)"
    by (auto simp: setitem_def)
qed

text \<open>
  Assignments to the keys \<open>d\<close> (a directory) and \<open>g\<close> (a file) of the example archive, with
  a file, \<open>None\<close>, an archive and a nameless object as values.
\<close>

theorem setitem_witness:
  "map_of (files example_arc) ''d'' = Some (Dir [(''f'', File (ArcFile ''f'' [1]))]) \<and>
   setitem (KStr ''d'') (VFile (ArcFile ''n'' [9])) example_arc =
     (None, example_arc\<lparr>mod_count := 3, files :=
        [(''d'', Dir [(''f'', File (ArcFile ''f'' [1])), (''n'', File (ArcFile ''n'' [9]))]),
         (''g'', File (ArcFile ''g'' [2]))]\<rparr>) \<and>
   setitem (KStr ''d'') VNone example_arc = (Some AttributeError, example_arc\<lparr>mod_count := 3\<rparr>) \<and>
   setitem (KStr ''d'') (VArc new_arc) example_arc
     = (Some AttributeError, example_arc\<lparr>mod_count := 3\<rparr>) \<and>
   setitem (KStr ''d'') VNameless example_arc
     = (Some AttributeError, example_arc\<lparr>mod_count := 3\<rparr>) \<and>
   map_of (files (snd (setitem (KStr ''d'') VNone example_arc))) ''d''
     = Some (Dir [(''f'', File (ArcFile ''f'' [1]))]) \<and>
   map_of (files (snd (setitem (KStr ''d'') (VArc new_arc) example_arc))) ''d''
     = Some (Dir [(''f'', File (ArcFile ''f'' [1]))]) \<and>
   map fst (files (snd (setitem (KStr ''d'') (VFile (ArcFile ''n'' [9])) example_arc)))
     = [''d'', ''g''] \<and>
   (map_of (files example_arc) ''g'' = None \<or>
      (\<exists>g. map_of (files example_arc) ''g'' = Some (File g))) \<and>
   files (snd (setitem (KStr ''g'') VNone example_arc)) =
     [(''d'', Dir [(''f'', File (ArcFile ''f'' [1]))]), (''g'', Dir [])] \<and>
   files (snd (setitem (KStr ''g'') (VArc new_arc) example_arc)) =
     [(''d'', Dir [(''f'', File (ArcFile ''f'' [1]))]), (''g'', Dir (files new_arc))] \<and>
   files (snd (setitem (KStr ''g'') (VFile (ArcFile ''n'' [9])) example_arc)) =
     [(''d'', Dir [(''f'', File (ArcFile ''f'' [1]))]), (''g'', File (ArcFile ''n'' [9]))] \<and>
   setitem (KStr ''g'') VNameless example_arc = (Some ValueError, example_arc)"
proof -
  have h1: "map_of (files example_arc) ''d'' = Some (Dir [(''f'', File (ArcFile ''f'' [1]))])"
    by (simp add: example_arc_eq)
  have h2: "map_of (files example_arc) ''g'' = None \<or>
      (\<exists>g. map_of (files example_arc) ''g'' = Some (File g))"
    by (simp add: example_arc_eq)
  have fs: "files example_arc =
      [(''d'', Dir [(''f'', File (ArcFile ''f'' [1]))]), (''g'', File (ArcFile ''g'' [2]))]"
    by (simp add: example_arc_eq)
  have mc: "mod_count example_arc = 2"
    by (simp add: example_arc_eq)
  note t = setitem_directory_or_binding [of example_arc "''d''" "[(''f'', File (ArcFile ''f'' [1]))]"
        "ArcFile ''n'' [9]" new_arc "''g''" "ArcFile ''n'' [9]"]
  from t h1 have a: "setitem (KStr ''d'') (VFile (ArcFile ''n'' [9])) example_arc =
     (None, example_arc\<lparr>mod_count := 3, files :=
        [(''d'', Dir [(''f'', File (ArcFile ''f'' [1])), (''n'', File (ArcFile ''n'' [9]))]),
         (''g'', File (ArcFile ''g'' [2]))]\<rparr>)"
    by (simp add: fs mc)
  from t h1 have b: "setitem (KStr ''d'') VNone example_arc = (Some AttributeError, example_arc\<lparr>mod_count := 3\<rparr>)"
    "setitem (KStr ''d'') (VArc new_arc) example_arc = (Some AttributeError, example_arc\<lparr>mod_count := 3\<rparr>)"
    "setitem (KStr ''d'') VNameless example_arc = (Some AttributeError, example_arc\<lparr>mod_count := 3\<rparr>)"
    by (simp_all add: mc)
  from t h2 have c: "files (snd (setitem (KStr ''g'') VNone example_arc)) =
     [(''d'', Dir [(''f'', File (ArcFile ''f'' [1]))]), (''g'', Dir [])]"
    "files (snd (setitem (KStr ''g'') (VArc new_arc) example_arc)) =
     [(''d'', Dir [(''f'', File (ArcFile ''f'' [1]))]), (''g'', Dir (files new_arc))]"
    "files (snd (setitem (KStr ''g'') (VFile (ArcFile ''n'' [9])) example_arc)) =
     [(''d'', Dir [(''f'', File (ArcFile ''f'' [1]))]), (''g'', File (ArcFile ''n'' [9]))]"
    "setitem (KStr ''g'') VNameless example_arc = (Some ValueError, example_arc)"
    by (simp_all add: fs)
  show ?thesis
    unfolding a b c using h1 h2 by (simp add: fs)
qed

subsection \<open>Freshness of the flat index\<close>

lemma flatten_file_map_update [simp]: "flatten_file_map inc (update a) = flatten_file_map inc a"
  by (simp add: flatten_file_map_def update_def)

lemma update_fresh:
  "0 < mod_count a \<Longrightarrow>
   mod_count (update a) = 0 \<and> files (update a) = files a \<and>
   only_files (update a) = flatten_file_map False a \<and>
   flat_file_struct (update a) = flatten_file_map True a"
  by (simp add: update_def)

lemma flatten_file_map_flat_upd [simp]:
  "flatten_file_map inc (a\<lparr>flat_file_struct := x\<rparr>) = flatten_file_map inc a"
  by (simp add: flatten_file_map_def)

lemma updating_readers_fresh:
  assumes "0 < mod_count a"
  shows "fst (get_all_files a) = flatten_file_map False (snd (get_all_files a))"
    and "fst (len_arc a) = length (flatten_file_map True (snd (len_arc a)))"
    and "mod_count (snd (get_all_files a)) = 0" and "mod_count (snd (len_arc a)) = 0"
  using update_fresh [OF assms]
  by (simp_all add: get_all_files_def len_arc_def Let_def)

lemma splitext_root_ARC_FILE: "splitext_root ''ARC_FILE'' = ''ARC_FILE''"
  by (simp add: splitext_root_def rfind_def)

text \<open>
  Claim C2 at its failing input. After \<open>append_file\<close> of a one-byte file \<open>x\<close> on a new archive the
  modification counter is 1 and the tree flattens to one entry, which \<open>get_all_files\<close>
  reports; \<open>__iter__\<close> does not call \<open>_update\<close> and still yields the empty index.
\<close>

theorem iter_reads_stale_index:
  "fst (append_file ''x'' [1] PNone new_arc) = None \<and>
   mod_count (snd (append_file ''x'' [1] PNone new_arc)) = 1 \<and>
   flatten_file_map True (snd (append_file ''x'' [1] PNone new_arc))
     = [(''ARC_FILE/x'', Some (ArcFile ''x'' [1]))] \<and>
   fst (get_all_files (snd (append_file ''x'' [1] PNone new_arc)))
     = [(''ARC_FILE/x'', Some (ArcFile ''x'' [1]))] \<and>
   fst (iter_arc (snd (append_file ''x'' [1] PNone new_arc))) = [] \<and>
   mod_count (snd (iter_arc (snd (append_file ''x'' [1] PNone new_arc)))) = 1"
  by (simp add: append_file_def append_internal_def get_or_create_directory_def target_path_def
      to_segments_def dict_contains_def new_arc_def iter_arc_def get_all_files_def update_def
      flatten_file_map_def splitext_root_ARC_FILE path_join_def)

subsection \<open>What the length operation counts\<close>

lemma path_join_plain: "plain_name k \<Longrightarrow> path_join p k = dir_prefix p @ k"
  by (cases k) (auto simp: path_join_def dir_prefix_def plain_name_def)

lemma dir_prefix_plain: "plain_name k \<Longrightarrow> dir_prefix (q @ k) = q @ k @ ''/''"
proof -
  assume p: "plain_name k"
  then have "k \<noteq> []" by (simp add: plain_name_def)
  with p have "last k \<noteq> CHR ''/''" by (metis plain_name_def last_in_set)
  with \<open>k \<noteq> []\<close> show ?thesis by (simp add: dir_prefix_def)
qed

lemma all_paths_shape:
  "plain_names n \<Longrightarrow> q \<in> set (all_paths p n) \<Longrightarrow>
   \<exists>k rest. plain_name k \<and> q = dir_prefix p @ k @ rest \<and> (rest = [] \<or> hd rest = CHR ''/'')"
proof (induction p n arbitrary: q rule: all_paths.induct)
  case (1 p f)
  then show ?case by simp
next
  case (2 p d)
  from "2.prems"(2) obtain kv where kv: "kv \<in> set d"
    and q: "q = path_join p (fst kv) \<or> q \<in> set (all_paths (path_join p (fst kv)) (snd kv))"
    by auto
  from "2.prems"(1) kv have pk: "plain_name (fst kv)" and pn: "plain_names (snd kv)" by auto
  from q show ?case
  proof
    assume "q = path_join p (fst kv)"
    with pk have "q = dir_prefix p @ fst kv @ []" by (simp add: path_join_plain)
    with pk show ?thesis by blast
  next
    assume "q \<in> set (all_paths (path_join p (fst kv)) (snd kv))"
    from "2.IH" [OF kv pn this] obtain k2 rest2 where
      "q = dir_prefix (path_join p (fst kv)) @ k2 @ rest2" by blast
    with pk have "q = dir_prefix p @ fst kv @ (''/'' @ k2 @ rest2)"
      by (simp add: path_join_plain dir_prefix_plain)
    with pk show ?thesis by (metis append_Cons list.sel(1))
  qed
qed

lemma block_shape:
  assumes "plain_name k" and "plain_names v"
    and "q \<in> set (all_paths (path_join p k) v)"
  shows "\<exists>rest. q = dir_prefix p @ k @ rest \<and> rest \<noteq> [] \<and> hd rest = CHR ''/''"
proof -
  from all_paths_shape [OF assms(2,3)] obtain k2 rest2 where
    "q = dir_prefix (path_join p k) @ k2 @ rest2" by blast
  with assms(1) have "q = dir_prefix p @ k @ (''/'' @ k2 @ rest2)"
    by (simp add: path_join_plain dir_prefix_plain)
  then show ?thesis by (metis append_Cons list.sel(1) list.distinct(1))
qed

lemma plain_name_unique:
  "CHR ''/'' \<notin> set k \<Longrightarrow> CHR ''/'' \<notin> set k' \<Longrightarrow>
   rest = [] \<or> hd rest = CHR ''/'' \<Longrightarrow> rest' = [] \<or> hd rest' = CHR ''/'' \<Longrightarrow>
   k @ rest = k' @ rest' \<Longrightarrow> k = k'"
proof (induction k arbitrary: k')
  case Nil
  then show ?case by (cases k') auto
next
  case (Cons c k)
  show ?case
  proof (cases k')
    case Nil
    with Cons.prems show ?thesis by auto
  next
    case (Cons c' k1)
    with Cons.prems Cons.IH [of k1] show ?thesis by auto
  qed
qed

lemma all_paths_distinct:
  "wf_node n \<Longrightarrow> plain_names n \<Longrightarrow> distinct (all_paths p n)"
proof (induction p n rule: all_paths.induct)
  case (1 p f)
  then show ?case by simp
next
  case (2 p d)
  have "distinct (map fst d') \<Longrightarrow> set d' \<subseteq> set d \<Longrightarrow> distinct (all_paths p (Dir d'))" for d'
  proof (induction d')
    case Nil
    then show ?case by simp
  next
    case (Cons kv d')
    from Cons.prems have kv: "kv \<in> set d" by simp
    with "2.prems" have wfv: "wf_node (snd kv)" and pk: "plain_name (fst kv)"
      and pv: "plain_names (snd kv)" by auto
    let ?P = "path_join p (fst kv)"
    have a: "distinct (all_paths ?P (snd kv))" using "2.IH" [OF kv wfv pv] .
    have b: "?P \<notin> set (all_paths ?P (snd kv))"
    proof
      assume "?P \<in> set (all_paths ?P (snd kv))"
      from block_shape [OF pk pv this] pk show False by (simp add: path_join_plain)
    qed
    have c: "distinct (all_paths p (Dir d'))" using Cons by simp
    have e: "q \<notin> set (all_paths p (Dir d'))" if q: "q \<in> set (?P # all_paths ?P (snd kv))" for q
    proof
      assume "q \<in> set (all_paths p (Dir d'))"
      then obtain kv' where kv': "kv' \<in> set d'"
        and q': "q \<in> set (path_join p (fst kv') # all_paths (path_join p (fst kv')) (snd kv'))"
        by auto
      from kv' Cons.prems have "kv' \<in> set d" by auto
      with "2.prems" have pk': "plain_name (fst kv')" and pv': "plain_names (snd kv')" by auto
      from q pk pv obtain rest where r: "q = dir_prefix p @ fst kv @ rest" "rest = [] \<or> hd rest = CHR ''/''"
        using block_shape [OF pk pv, of q p] by (auto simp: path_join_plain)
      from q' pk' pv' obtain rest' where r': "q = dir_prefix p @ fst kv' @ rest'" "rest' = [] \<or> hd rest' = CHR ''/''"
        using block_shape [OF pk' pv', of q p] by (auto simp: path_join_plain)
      from r r' pk pk' have "fst kv = fst kv'"
        using plain_name_unique [of "fst kv" "fst kv'" rest rest'] by (simp add: plain_name_def)
      with kv' Cons.prems(1) show False by auto
    qed
    from a b c e show ?case by auto
  qed
  with "2.prems" show ?case by simp
qed

lemma all_paths_length: "Suc (length (all_paths p n)) = count_files n + count_dirs n"
proof (induction p n rule: all_paths.induct)
  case (1 p f)
  then show ?case by simp
next
  case (2 p d)
  have "length (all_paths p (Dir d')) = sum_list (map (\<lambda>kv. count_files (snd kv) + count_dirs (snd kv)) d')"
    if "set d' \<subseteq> set d" for d'
    using that
  proof (induction d')
    case Nil
    then show ?case by simp
  next
    case (Cons kv d')
    then have "kv \<in> set d" by simp
    from "2.IH" [OF this] Cons show ?case by simp
  qed
  then have "length (all_paths p (Dir d)) = sum_list (map (\<lambda>kv. count_files (snd kv) + count_dirs (snd kv)) d)"
    by simp
  then show ?case by (simp add: sum_list_addf)
qed

lemma flatten_items_keys:
  "distinct (map (\<lambda>kv. path_join cur (fst kv)) items) \<Longrightarrow>
   set (map (\<lambda>kv. path_join cur (fst kv)) items) \<inter> set (map fst res) = {} \<Longrightarrow>
   map fst (fst (flatten_items True cur items (res, st)))
     = map fst res @ map (\<lambda>kv. path_join cur (fst kv)) items"
proof (induction items arbitrary: res st)
  case Nil
  then show ?case by simp
next
  case (Cons kv items)
  obtain key val where kv: "kv = (key, val)" by (cases kv)
  from Cons.prems kv have fresh: "path_join cur key \<notin> set (map fst res)" by auto
  show ?case
  proof (cases val)
    case (Dir d)
    have "map fst (fst (flatten_items True cur items (res @ [(path_join cur key, None)], (path_join cur key, d) # st)))
        = map fst (res @ [(path_join cur key, None)]) @ map (\<lambda>kv. path_join cur (fst kv)) items"
      using Cons.prems kv by (intro Cons.IH) auto
    with kv Dir fresh show ?thesis by (simp add: Let_def dict_set_fresh)
  next
    case (File f)
    have "map fst (fst (flatten_items True cur items (res @ [(path_join cur key, Some f)], st)))
        = map fst (res @ [(path_join cur key, Some f)]) @ map (\<lambda>kv. path_join cur (fst kv)) items"
      using Cons.prems kv by (intro Cons.IH) auto
    with kv File fresh show ?thesis by (simp add: Let_def dict_set_fresh)
  qed
qed

lemma flatten_items_stack:
  "mset (stack_paths (snd (flatten_items inc cur items (res, st))))
     = mset (stack_paths st)
       + sum_list (map (\<lambda>kv. mset (all_paths (path_join cur (fst kv)) (snd kv))) items)"
proof (induction items arbitrary: res st)
  case Nil
  then show ?case by simp
next
  case (Cons kv items)
  obtain key val where kv: "kv = (key, val)" by (cases kv)
  show ?case
  proof (cases val)
    case (Dir d)
    with kv show ?thesis by (simp add: Let_def Cons.IH del: all_paths.simps(2))
  next
    case (File f)
    with kv show ?thesis by (simp add: Let_def Cons.IH del: all_paths.simps(2))
  qed
qed

lemma all_paths_Dir_mset:
  "mset (all_paths cur (Dir items))
     = mset (map (\<lambda>kv. path_join cur (fst kv)) items)
       + sum_list (map (\<lambda>kv. mset (all_paths (path_join cur (fst kv)) (snd kv))) items)"
  by (induction items) simp_all

lemma sub_mset_distinct:
  assumes "mset xs \<subseteq># mset ys" and "distinct ys"
  shows "distinct xs"
proof -
  from assms(1) obtain C where C: "mset ys = mset xs + C"
    by (auto simp: mset_subset_eq_exists_conv)
  obtain zs where "mset zs = C" using ex_mset [of C] by blast
  with C have "mset ys = mset (xs @ zs)" by simp
  from mset_eq_imp_distinct_iff [OF this] assms(2) show ?thesis by simp
qed

lemma flatten_loop_keys:
  "distinct (map fst res @ stack_paths st) \<Longrightarrow>
   mset (map fst (flatten_loop True st res)) = mset (map fst res @ stack_paths st)"
proof (induction "True" st res rule: flatten_loop.induct)
  case (1 results)
  then show ?case by simp
next
  case (2 current_path current_dict stack results)
  let ?direct = "map (\<lambda>kv. path_join current_path (fst kv)) current_dict"
  let ?below = "sum_list (map (\<lambda>kv. mset (all_paths (path_join current_path (fst kv)) (snd kv))) current_dict)"
  obtain results' stack' where fi:
    "flatten_items True current_path current_dict (results, stack) = (results', stack')"
    by (cases "flatten_items True current_path current_dict (results, stack)")
  have total: "mset (map fst results @ stack_paths ((current_path, current_dict) # stack))
      = mset (map fst results) + mset ?direct + (?below + mset (stack_paths stack))"
    by (simp add: all_paths_Dir_mset del: all_paths.simps(2))
  from "2.prems" have dist_all: "distinct (map fst results @ all_paths current_path (Dir current_dict))"
    by (auto simp del: all_paths.simps(2))
  have sub: "mset (map fst results @ ?direct) \<subseteq># mset (map fst results @ all_paths current_path (Dir current_dict))"
    by (simp add: all_paths_Dir_mset del: all_paths.simps(2))
  have "distinct (map fst results @ ?direct)"
    using sub dist_all by (rule sub_mset_distinct)
  then have d1: "distinct ?direct" and d2: "set ?direct \<inter> set (map fst results) = {}"
    by auto
  have keys: "map fst results' = map fst results @ ?direct"
    using flatten_items_keys [OF d1 d2, of stack] fi by simp
  have st: "mset (stack_paths stack') = mset (stack_paths stack) + ?below"
    using flatten_items_stack [of True current_path current_dict results stack] fi by simp
  have eq: "mset (map fst results' @ stack_paths stack')
      = mset (map fst results @ stack_paths ((current_path, current_dict) # stack))"
    unfolding total by (simp add: keys st)
  with "2.prems" have "distinct (map fst results' @ stack_paths stack')"
    by (metis mset_eq_imp_distinct_iff)
  from "2.hyps" [OF fi [symmetric] this] eq fi show ?case by simp
qed

lemma flatten_file_map_length:
  assumes "wf_node (Dir (files a))" and "plain_names (Dir (files a))"
  shows "length (flatten_file_map True a) = count_files (Dir (files a)) + count_dirs (Dir (files a)) - 1"
proof -
  let ?root = "splitext_root (arc_name a)"
  have "distinct (all_paths ?root (Dir (files a)))"
    using assms by (rule all_paths_distinct)
  then have "distinct (map fst [] @ stack_paths [(?root, files a)])"
    by (simp del: all_paths.simps(2))
  from flatten_loop_keys [OF this]
  have "mset (map fst (flatten_file_map True a)) = mset (all_paths ?root (Dir (files a)))"
    by (simp add: flatten_file_map_def del: all_paths.simps(2))
  then have "length (map fst (flatten_file_map True a)) = length (all_paths ?root (Dir (files a)))"
    by (rule mset_eq_length)
  with all_paths_length [of ?root "Dir (files a)"] show ?thesis by simp
qed

text \<open>
  Claim C7 as stated fails: the example archive holds two files and one directory, and
  its length is three.
\<close>

theorem len_counts_directories_counterexample:
  "fst (len_arc example_arc) \<noteq> count_files (Dir (files example_arc))"
  by (simp add: example_arc_eq len_arc_def update_def flatten_file_map_def
      splitext_root_ARC_FILE path_join_def Let_def)

text \<open>
  \<open>index_ok\<close> holds of a new archive and of a decoded one, and every operation called on an
  archive keeps it: a mutation that changes the tree increments the counter, a reader
  rebuilds the index when the counter is positive. It says nothing about a tree that is
  changed without a call on the archive (the \<open>files\<close> attribute is public, and a dict
  assigned from another archive is shared with it).
\<close>

lemma flatten_file_map_cong:
  "files b = files a \<Longrightarrow> arc_name b = arc_name a \<Longrightarrow>
   flatten_file_map inc b = flatten_file_map inc a"
  by (simp add: flatten_file_map_def)

lemma index_ok_step:
  assumes "index_ok a"
    and "flat_file_struct b = flat_file_struct a" and "arc_name b = arc_name a"
    and "(files b = files a \<and> mod_count b = mod_count a) \<or> mod_count a < mod_count b"
  shows "index_ok b"
  using assms flatten_file_map_cong [of b a True]
  by (auto simp: index_ok_def)

lemma index_ok_new_arc: "index_ok new_arc"
  by (simp add: index_ok_def new_arc_def flatten_file_map_def)

lemma index_ok_load_from_bin: "load_from_bin data base_offset = Inr a \<Longrightarrow> index_ok a"
  by (auto simp: load_from_bin_def Let_def index_ok_def flatten_file_map_def
      split: sum.splits prod.splits)

lemma index_ok_update: "index_ok a \<Longrightarrow> index_ok (update a)"
  by (auto simp: index_ok_def update_def flatten_file_map_def)

lemma index_ok_readers:
  assumes "index_ok a"
  shows "index_ok (snd (get_all_files a))" and "index_ok (snd (len_arc a))"
    and "index_ok (snd (iter_arc a))"
  using assms index_ok_update [OF assms]
  by (simp_all add: get_all_files_def len_arc_def iter_arc_def)

lemma index_ok_mkdir: "index_ok a \<Longrightarrow> index_ok (snd (mkdir p a))"
proof (cases "fst (mkdir p a) = None")
  case False
  assume "index_ok a"
  with mkdir_error [OF False] show ?thesis by simp
next
  case True
  assume a: "index_ok a"
  show ?thesis
  proof (rule index_ok_step [OF a])
    show "flat_file_struct (snd (mkdir p a)) = flat_file_struct a"
      by (auto simp: mkdir_def split: prod.splits sum.splits)
    show "arc_name (snd (mkdir p a)) = arc_name a"
      by (auto simp: mkdir_def split: prod.splits sum.splits)
    from True show "(files (snd (mkdir p a)) = files a \<and> mod_count (snd (mkdir p a)) = mod_count a)
        \<or> mod_count a < mod_count (snd (mkdir p a))"
      by (auto simp: mkdir_def split: prod.splits sum.splits)
  qed
qed

lemma index_ok_append_file: "index_ok a \<Longrightarrow> index_ok (snd (append_file fn bs p a))"
proof (cases "fst (append_internal fn (ArcFile fn bs) p a) = None")
  case False
  assume "index_ok a"
  with append_internal_error [OF False] show ?thesis by (simp add: append_file_def)
next
  case True
  assume a: "index_ok a"
  let ?r = "snd (append_internal fn (ArcFile fn bs) p a)"
  have "index_ok ?r"
  proof (rule index_ok_step [OF a])
    show "flat_file_struct ?r = flat_file_struct a"
      by (auto simp: append_internal_def split: prod.splits sum.splits)
    show "arc_name ?r = arc_name a"
      by (auto simp: append_internal_def split: prod.splits sum.splits)
    from True show "(files ?r = files a \<and> mod_count ?r = mod_count a) \<or> mod_count a < mod_count ?r"
      by (auto simp: append_internal_def split: prod.splits sum.splits if_splits)
  qed
  then show ?thesis by (simp add: append_file_def)
qed

lemma index_ok_rename: "index_ok a \<Longrightarrow> index_ok (snd (rename p n a))"
proof (cases "fst (rename p n a) = None")
  case False
  assume "index_ok a"
  with rename_error [OF False] show ?thesis by simp
next
  case True
  assume a: "index_ok a"
  show ?thesis
  proof (rule index_ok_step [OF a])
    show "flat_file_struct (snd (rename p n a)) = flat_file_struct a"
      by (auto simp: rename_def Let_def split: sum.splits if_splits)
    show "arc_name (snd (rename p n a)) = arc_name a"
      by (auto simp: rename_def Let_def split: sum.splits if_splits)
    from True show "(files (snd (rename p n a)) = files a \<and> mod_count (snd (rename p n a)) = mod_count a)
        \<or> mod_count a < mod_count (snd (rename p n a))"
      by (auto simp: rename_def Let_def split: sum.splits if_splits)
  qed
qed

lemma index_ok_delete: "index_ok a \<Longrightarrow> index_ok (snd (delete p a))"
proof (cases "fst (delete p a) = None")
  case False
  assume "index_ok a"
  with delete_error [OF False] show ?thesis by simp
next
  case True
  assume a: "index_ok a"
  show ?thesis
  proof (rule index_ok_step [OF a])
    show "flat_file_struct (snd (delete p a)) = flat_file_struct a"
      by (auto simp: delete_def Let_def split: sum.splits if_splits)
    show "arc_name (snd (delete p a)) = arc_name a"
      by (auto simp: delete_def Let_def split: sum.splits if_splits)
    from True show "(files (snd (delete p a)) = files a \<and> mod_count (snd (delete p a)) = mod_count a)
        \<or> mod_count a < mod_count (snd (delete p a))"
      by (auto simp: delete_def Let_def split: sum.splits if_splits)
  qed
qed

lemma move_fields:
  "flat_file_struct (snd (move src dest a)) = flat_file_struct a \<and>
   arc_name (snd (move src dest a)) = arc_name a \<and>
   (snd (move src dest a) = a \<or> mod_count a < mod_count (snd (move src dest a)))"
proof (cases "to_segments src = [] \<or> to_segments dest = []")
  case True
  then show ?thesis by (auto simp: move_def Let_def)
next
  case ne: False
  show ?thesis
  proof (cases "walk_parents (butlast (to_segments src)) (files a)")
    case (Inl e)
    with ne show ?thesis by (simp add: move_def Let_def)
  next
    case (Inr cur)
    show ?thesis
    proof (cases "map_of cur (last (to_segments src))")
      case None
      with ne Inr show ?thesis by (simp add: move_def Let_def)
    next
      case (Some el)
      from ne have n1: "to_segments src \<noteq> []" and n2: "to_segments dest \<noteq> []" by simp_all
      show ?thesis
        unfolding move_resolved [OF n1 n2 Inr Some]
        by (simp add: Let_def split: sum.splits)
    qed
  qed
qed

lemma index_ok_move: "index_ok a \<Longrightarrow> index_ok (snd (move src dest a))"
proof -
  assume a: "index_ok a"
  from move_fields [of src dest a]
  have f: "flat_file_struct (snd (move src dest a)) = flat_file_struct a"
    and n: "arc_name (snd (move src dest a)) = arc_name a"
    and m: "snd (move src dest a) = a \<or> mod_count a < mod_count (snd (move src dest a))"
    by simp_all
  from m have "(files (snd (move src dest a)) = files a \<and> mod_count (snd (move src dest a)) = mod_count a)
        \<or> mod_count a < mod_count (snd (move src dest a))"
    by auto
  with a f n show ?thesis by (rule index_ok_step)
qed

lemma index_ok_setitem: "index_ok a \<Longrightarrow> index_ok (snd (setitem key val a))"
proof -
  assume a: "index_ok a"
  have f: "flat_file_struct (snd (setitem key val a)) = flat_file_struct a"
    by (auto simp: setitem_def Let_def split: setitem_key.splits option.splits node.splits setitem_value.splits)
  have n: "arc_name (snd (setitem key val a)) = arc_name a"
    by (auto simp: setitem_def Let_def split: setitem_key.splits option.splits node.splits setitem_value.splits)
  have m: "(files (snd (setitem key val a)) = files a \<and> mod_count (snd (setitem key val a)) = mod_count a)
        \<or> mod_count a < mod_count (snd (setitem key val a))"
    by (auto simp: setitem_def Let_def split: setitem_key.splits option.splits node.splits setitem_value.splits)
  from a f n m show ?thesis by (rule index_ok_step)
qed

text \<open>
  A write through a shared dict breaks \<open>index_ok\<close>. A new archive gets the empty tree of
  another new archive under \<open>k\<close> and is asked for its length, which rebuilds the index (one
  directory); the other archive then appends a file \<open>x\<close>. The tree now holds one directory
  and one file, the cached index still has one entry, and that is the length returned.
\<close>

lemma shared_dict_stale_index:
  "index_ok (snd (setitem (KStr ''k'') (VArc new_arc) new_arc)) \<and>
   fst (len_arc (snd (setitem (KStr ''k'') (VArc new_arc) new_arc))) = 1 \<and>
   index_ok (snd (len_arc (snd (setitem (KStr ''k'') (VArc new_arc) new_arc)))) \<and>
   files (shared_dict_write ''k'' (\<lambda>d. dict_set d ''x'' (File (ArcFile ''x'' [1])))
            (snd (len_arc (snd (setitem (KStr ''k'') (VArc new_arc) new_arc)))))
     = [(''k'', Dir [(''x'', File (ArcFile ''x'' [1]))])] \<and>
   \<not> index_ok (shared_dict_write ''k'' (\<lambda>d. dict_set d ''x'' (File (ArcFile ''x'' [1])))
            (snd (len_arc (snd (setitem (KStr ''k'') (VArc new_arc) new_arc))))) \<and>
   fst (len_arc (shared_dict_write ''k'' (\<lambda>d. dict_set d ''x'' (File (ArcFile ''x'' [1])))
            (snd (len_arc (snd (setitem (KStr ''k'') (VArc new_arc) new_arc)))))) = 1"
proof -
  have a1: "snd (setitem (KStr ''k'') (VArc new_arc) new_arc)
      = \<lparr> mod_count = 1, flat_file_struct = [], only_files = [],
          created_manually = True, arc_name = ''ARC_FILE'', files = [(''k'', Dir [])] \<rparr>"
    by (simp add: setitem_def new_arc_def)
  have a2: "len_arc \<lparr> mod_count = 1, flat_file_struct = [], only_files = [],
          created_manually = True, arc_name = ''ARC_FILE'', files = [(''k'', Dir [])] \<rparr>
      = (1, \<lparr> mod_count = 0, flat_file_struct = [(''ARC_FILE/k'', None)], only_files = [],
          created_manually = True, arc_name = ''ARC_FILE'', files = [(''k'', Dir [])] \<rparr>)"
    by (simp add: len_arc_def update_def flatten_file_map_def splitext_root_ARC_FILE path_join_def
        Let_def)
  show ?thesis
    unfolding a1 a2
    by (simp add: index_ok_def shared_dict_write_def len_arc_def update_def flatten_file_map_def
        splitext_root_ARC_FILE path_join_def Let_def)
qed

text \<open>
  Claim C7 as amended. \<open>__len__\<close> returns the size of the with-directories index as
  \<open>_update\<close> leaves it: rebuilt from the tree when the counter is positive, the cached map
  otherwise. When a rebuild is pending or the cached map is what a rebuild would give, and
  the names of the tree are unique among siblings, not empty and without a slash, that size
  is the number of files plus the number of directories below the root.
\<close>

theorem len_counts_files_and_directories:
  "fst (len_arc a)
     = length (if 0 < mod_count a then flatten_file_map True a else flat_file_struct a) \<and>
   (wf_node (Dir (files a)) \<and> plain_names (Dir (files a)) \<and>
    (0 < mod_count a \<or> flat_file_struct a = flatten_file_map True a) \<longrightarrow>
      fst (len_arc a) = count_files (Dir (files a)) + (count_dirs (Dir (files a)) - 1))"
proof (intro conjI impI)
  show 1: "fst (len_arc a)
     = length (if 0 < mod_count a then flatten_file_map True a else flat_file_struct a)"
    by (simp add: len_arc_def update_def)
  assume h: "wf_node (Dir (files a)) \<and> plain_names (Dir (files a)) \<and>
    (0 < mod_count a \<or> flat_file_struct a = flatten_file_map True a)"
  then have "fst (len_arc a) = length (flatten_file_map True a)"
    unfolding 1 by auto
  moreover from h have "length (flatten_file_map True a)
      = count_files (Dir (files a)) + count_dirs (Dir (files a)) - 1"
    by (simp add: flatten_file_map_length)
  ultimately show "fst (len_arc a) = count_files (Dir (files a)) + (count_dirs (Dir (files a)) - 1)"
    by simp
qed

text \<open>
  The example archive, with its rebuild pending, and the same archive after a reader has
  rebuilt the index: two files and one directory below the root, length three.
\<close>

theorem len_counts_witness:
  "wf_node (Dir (files example_arc)) \<and> plain_names (Dir (files example_arc)) \<and>
   0 < mod_count example_arc \<and>
   fst (len_arc example_arc) = 3 \<and>
   mod_count (update example_arc) = 0 \<and>
   flat_file_struct (update example_arc) = flatten_file_map True (update example_arc) \<and>
   fst (len_arc (update example_arc)) = 3"
proof -
  have h1: "wf_node (Dir (files example_arc))" by (simp add: example_arc_eq)
  have h2: "plain_names (Dir (files example_arc))" by (simp add: example_arc_eq plain_name_def)
  have h3: "0 < mod_count example_arc" by (simp add: example_arc_eq)
  have u: "files (update example_arc) = files example_arc" "mod_count (update example_arc) = 0"
    "flat_file_struct (update example_arc) = flatten_file_map True (update example_arc)"
    using update_fresh [OF h3] by simp_all
  from len_counts_files_and_directories [of example_arc] h1 h2 h3
  have a: "fst (len_arc example_arc) = 3" by (simp add: example_arc_eq)
  from len_counts_files_and_directories [of "update example_arc"] h1 h2 u
  have b: "fst (len_arc (update example_arc)) = 3" by (simp add: example_arc_eq)
  from h1 h2 h3 a b u show ?thesis by simp
qed

subsection \<open>Unfolding rules for evaluation\<close>

lemma to_bytes_big_4:
  "to_bytes_big 4 x = [word_of_nat (x div 16777216), word_of_nat (x div 65536),
                       word_of_nat (x div 256), word_of_nat x]"
proof -
  have "to_bytes_big (Suc (Suc (Suc (Suc 0)))) x =
      [word_of_nat (x div 16777216), word_of_nat (x div 65536), word_of_nat (x div 256), word_of_nat x]"
    by simp
  moreover have "(4::nat) = Suc (Suc (Suc (Suc 0)))" by simp
  ultimately show ?thesis by metis
qed

lemma to_bytes_big_3:
  "to_bytes_big 3 x = [word_of_nat (x div 65536), word_of_nat (x div 256), word_of_nat x]"
proof -
  have "to_bytes_big (Suc (Suc (Suc 0))) x =
      [word_of_nat (x div 65536), word_of_nat (x div 256), word_of_nat x]"
    by simp
  moreover have "(3::nat) = Suc (Suc (Suc 0))" by simp
  ultimately show ?thesis by metis
qed

lemma load_entries_numeral:
  "load_entries bs (numeral k) pos =
     (case load_entry bs pos of
        Inl err \<Rightarrow> Inl err
      | Inr (e, pos') \<Rightarrow>
          (case load_entries bs (pred_numeral k) pos' of
             Inl err \<Rightarrow> Inl err
           | Inr (es, pos'') \<Rightarrow> Inr (e # es, pos'')))"
  by (simp add: numeral_eq_Suc)

lemma replicate_numeral_unfold:
  "replicate (numeral k) x = x # replicate (pred_numeral k) x"
  by (simp add: numeral_eq_Suc)

lemmas enc_defs = to_bytes_def encode_layout_def build_fst_def add_entry_def
  pack_header_def to_binary_def padding_def align_def encode_ascii_def U8_FILE_MAGIC_def Let_def

lemmas dec_defs = load_from_bin_def read_header_def open_arc_def load_entry_def seek_def
  read_def from_bytes_big_def signed32_def read_terminated_string_def load_top_step_def
  load_dir_def load_dir_step_def current_dir_def U8_FILE_MAGIC_def Let_def
  upt_conv_Cons char_of_def bit_iff_odd load_entries_numeral

lemma single_file_arc:
  "snd (append_file ''a'' [1] PNone new_arc) =
     \<lparr> mod_count = 1, flat_file_struct = [], only_files = [], created_manually = True,
       arc_name = ''ARC_FILE'', files = [(''a'', File (ArcFile ''a'' [1]))] \<rparr>"
  by (simp add: append_file_def append_internal_def get_or_create_directory_def target_path_def
      to_segments_def dict_contains_def new_arc_def)

subsection \<open>Evaluating the encoder and the decoder\<close>

lemma single_file_to_bytes:
  "to_bytes (snd (append_file ''a'' [1] PNone new_arc)) = Inr single_file_bytes"
  unfolding single_file_arc single_file_bytes_def
  by (simp add: enc_defs to_bytes_big_4 to_bytes_big_3 replicate_numeral_unfold)

lemma single_file_decoded:
  "map_sum id files (load_from_bin \<lparr>stream_name = ''x.arc'', stream_bytes = single_file_bytes\<rparr> 0)
     = Inr [(''a'', File (ArcFile ''a'' [0]))]"
  unfolding single_file_bytes_def
  by (simp add: dec_defs)

text \<open>
  Claim C1 at its failing input. The tree with the one-byte file \<open>a\<close> (content 1)
  directly under the root is encoded without error, and decoding the bytes gives a file
  \<open>a\<close> whose content is 0: the loop of \<open>_load_from_bin\<close> reads a root-level file from
  the position after its name instead of seeking to the file's offset.
\<close>

theorem roundtrip_loses_root_file_data:
  "files (snd (append_file ''a'' [1] PNone new_arc)) = [(''a'', File (ArcFile ''a'' [1]))] \<and>
   map_sum id files (decode_encoded ''x.arc'' (snd (append_file ''a'' [1] PNone new_arc)))
     = Inr [(''a'', File (ArcFile ''a'' [0]))]"
proof
  show "files (snd (append_file ''a'' [1] PNone new_arc)) = [(''a'', File (ArcFile ''a'' [1]))]"
    by (simp add: single_file_arc)
  show "map_sum id files (decode_encoded ''x.arc'' (snd (append_file ''a'' [1] PNone new_arc)))
     = Inr [(''a'', File (ArcFile ''a'' [0]))]"
    by (simp add: decode_encoded_def single_file_to_bytes single_file_decoded)
qed

lemma course_arc_eq:
  "course_arc = \<lparr> mod_count = 1, flat_file_struct = [], only_files = [], created_manually = True,
       arc_name = ''ARC_FILE'',
       files = [(''point'', Dir [(''point_001.bin'', File (ArcFile ''point_001.bin'' [1, 2]))])] \<rparr>"
  by (simp add: course_arc_def append_file_def append_internal_def get_or_create_directory_def
      target_path_def to_segments_def path_segments_def dict_contains_def new_arc_def)

lemma course_encode_layout: "encode_layout (files course_arc) = Inr course_layout"
  unfolding course_arc_eq course_layout_def
  by (simp add: enc_defs)

lemma course_to_bytes: "to_bytes course_arc = Inr course_bytes"
  unfolding course_arc_eq course_bytes_def
  by (simp add: enc_defs to_bytes_big_4 to_bytes_big_3 replicate_numeral_unfold)

lemma course_open_arc: "open_arc course_bytes 0 32 = Inr (lay_entries course_layout, 68)"
  unfolding course_bytes_def course_layout_def
  by (simp add: dec_defs)

lemma course_decoded_named:
  "load_from_bin \<lparr>stream_name = nm, stream_bytes = course_bytes\<rparr> 0 =
     Inr \<lparr> mod_count = 0,
           flat_file_struct = [(dir_prefix (splitext_root nm) @ ''point'', None),
              (dir_prefix (splitext_root nm) @ ''point/point_001.bin'',
               Some (ArcFile ''point_001.bin'' [1, 2]))],
           only_files = [(dir_prefix (splitext_root nm) @ ''point/point_001.bin'',
               Some (ArcFile ''point_001.bin'' [1, 2]))],
           created_manually = False, arc_name = nm,
           files = [(''point'', Dir [(''point_001.bin'', File (ArcFile ''point_001.bin'' [1, 2]))])] \<rparr>"
proof -
  have p1: "path_join (splitext_root nm) ''point'' = dir_prefix (splitext_root nm) @ ''point''"
    by (rule path_join_plain) (simp add: plain_name_def)
  have p2: "path_join (dir_prefix (splitext_root nm) @ ''point'') ''point_001.bin''
      = dir_prefix (splitext_root nm) @ ''point/point_001.bin''"
  proof -
    have "path_join (dir_prefix (splitext_root nm) @ ''point'') ''point_001.bin''
        = dir_prefix (dir_prefix (splitext_root nm) @ ''point'') @ ''point_001.bin''"
      by (rule path_join_plain) (simp add: plain_name_def)
    moreover have "dir_prefix (dir_prefix (splitext_root nm) @ ''point'')
        = dir_prefix (splitext_root nm) @ ''point'' @ ''/''"
      by (rule dir_prefix_plain) (simp add: plain_name_def)
    ultimately show ?thesis by simp
  qed
  show ?thesis
    unfolding course_bytes_def
    by (simp add: dec_defs flatten_file_map_def p1 p2)
qed

lemma splitext_root_course: "splitext_root ''course.arc'' = ''course''"
  by (simp add: splitext_root_def rfind_def)

lemma splitext_root_tmp_course: "splitext_root ''/tmp/course.arc'' = ''/tmp/course''"
  by (simp add: splitext_root_def rfind_def)

lemma path_stem_course: "path_stem ''course.arc'' = ''course''"
  by (simp add: path_stem_def path_name_def rfind_def)

lemma path_stem_tmp_course: "path_stem ''/tmp/course.arc'' = ''course''"
  by (simp add: path_stem_def path_name_def rfind_def)

text \<open>
  Claim C5 as stated fails. The display name is the stem of the stream's name, and the
  paths of the flat index start with the stream's name without its extension, directory
  part included. Decoded from a stream named \<open>/tmp/course.arc\<close> the archive has the display
  name \<open>course\<close>, and its one file is at \<open>/tmp/course/point/point_001.bin\<close>.
\<close>

theorem course_path_counterexample:
  "map_sum id arc_name_property (decode_encoded ''/tmp/course.arc'' course_arc) = Inr ''course'' \<and>
   map_sum id (\<lambda>a. fst (get_all_files a)) (decode_encoded ''/tmp/course.arc'' course_arc)
     = Inr [(''/tmp/course/point/point_001.bin'', Some (ArcFile ''point_001.bin'' [1, 2]))] \<and>
   map_sum id (\<lambda>a. map fst (fst (get_all_files a))) (decode_encoded ''/tmp/course.arc'' course_arc)
     \<noteq> Inr [''course/point/point_001.bin'']"
  by (simp add: decode_encoded_def course_to_bytes course_decoded_named get_all_files_def
      update_def arc_name_property_def path_stem_tmp_course splitext_root_tmp_course dir_prefix_def)

text \<open>
  Claim C5 as amended. The archive with the directory \<open>point\<close> holding \<open>point_001.bin\<close>
  (bytes 1, 2) is encoded to 128 bytes with three records. Decoding them from a stream of
  any name \<open>nm\<close> gives the same tree, and the file index holds exactly one file, with the
  bytes 1, 2, at the path made of \<open>nm\<close> without its extension, a slash unless that is empty
  or ends in one, and \<open>point/point_001.bin\<close>. For the name \<open>course.arc\<close> the display name
  is \<open>course\<close> and the path is \<open>course/point/point_001.bin\<close>. The offset in the file's
  record, in the layout and as read back from the bytes, is \<open>0x20 + 12 * 3\<close> plus the length
  of the name table, aligned to 32.
\<close>

theorem course_scenario:
  "to_bytes course_arc = Inr course_bytes \<and>
   map_sum id files (decode_encoded nm course_arc) = Inr (files course_arc) \<and>
   map_sum id (\<lambda>a. fst (get_all_files a)) (decode_encoded nm course_arc)
     = Inr [(dir_prefix (splitext_root nm) @ ''point/point_001.bin'',
             Some (ArcFile ''point_001.bin'' [1, 2]))] \<and>
   map_sum id arc_name_property (decode_encoded ''course.arc'' course_arc) = Inr ''course'' \<and>
   map_sum id files (decode_encoded ''course.arc'' course_arc) = Inr (files course_arc) \<and>
   map_sum id (\<lambda>a. fst (get_all_files a)) (decode_encoded ''course.arc'' course_arc)
     = Inr [(''course/point/point_001.bin'', Some (ArcFile ''point_001.bin'' [1, 2]))] \<and>
   encode_layout (files course_arc) = Inr course_layout \<and>
   map_sum id fst (open_arc course_bytes 0 0x20) = Inr (lay_entries course_layout) \<and>
   length (lay_entries course_layout) = 3 \<and>
   \<not> is_dir (lay_entries course_layout ! 2) \<and>
   parent_or_file_off (lay_entries course_layout ! 2)
     = align (0x20 + 12 * 3 + length (lay_string_table course_layout)) 32"
proof -
  have 1: "to_bytes course_arc = Inr course_bytes" by (rule course_to_bytes)
  have fs: "files course_arc
      = [(''point'', Dir [(''point_001.bin'', File (ArcFile ''point_001.bin'' [1, 2]))])]"
    by (simp add: course_arc_eq)
  have 2: "map_sum id files (decode_encoded n course_arc) = Inr (files course_arc)" for n
    unfolding fs by (simp add: decode_encoded_def course_to_bytes course_decoded_named)
  have 3: "map_sum id (\<lambda>a. fst (get_all_files a)) (decode_encoded n course_arc)
     = Inr [(dir_prefix (splitext_root n) @ ''point/point_001.bin'',
             Some (ArcFile ''point_001.bin'' [1, 2]))]" for n
    by (simp add: decode_encoded_def course_to_bytes course_decoded_named get_all_files_def
        update_def)
  have 4: "map_sum id arc_name_property (decode_encoded ''course.arc'' course_arc) = Inr ''course''"
    by (simp add: decode_encoded_def course_to_bytes course_decoded_named arc_name_property_def
        path_stem_course)
  have 5: "map_sum id (\<lambda>a. fst (get_all_files a)) (decode_encoded ''course.arc'' course_arc)
     = Inr [(''course/point/point_001.bin'', Some (ArcFile ''point_001.bin'' [1, 2]))]"
    unfolding 3 by (simp add: splitext_root_course dir_prefix_def)
  have 6: "encode_layout (files course_arc) = Inr course_layout" by (rule course_encode_layout)
  have 7: "map_sum id fst (open_arc course_bytes 0 0x20) = Inr (lay_entries course_layout)"
    by (simp add: course_open_arc)
  have 8: "length (lay_entries course_layout) = 3 \<and>
   \<not> is_dir (lay_entries course_layout ! 2) \<and>
   parent_or_file_off (lay_entries course_layout ! 2)
     = align (0x20 + 12 * 3 + length (lay_string_table course_layout)) 32"
    by (simp add: course_layout_def align_def)
  from 1 2 3 4 5 6 7 8 show ?thesis by simp
qed

text \<open>
  The stream name \<open>tracks/course.arc\<close>: the directory part of the name stays in the path.
\<close>

theorem course_scenario_witness:
  "map_sum id files (decode_encoded ''tracks/course.arc'' course_arc)
     = Inr [(''point'', Dir [(''point_001.bin'', File (ArcFile ''point_001.bin'' [1, 2]))])] \<and>
   map_sum id (\<lambda>a. fst (get_all_files a)) (decode_encoded ''tracks/course.arc'' course_arc)
     = Inr [(''tracks/course/point/point_001.bin'', Some (ArcFile ''point_001.bin'' [1, 2]))]"
proof -
  have r: "splitext_root ''tracks/course.arc'' = ''tracks/course''"
    by (simp add: splitext_root_def rfind_def)
  have fs: "files course_arc
      = [(''point'', Dir [(''point_001.bin'', File (ArcFile ''point_001.bin'' [1, 2]))])]"
    by (simp add: course_arc_eq)
  from course_scenario [of "''tracks/course.arc''"]
  have "map_sum id files (decode_encoded ''tracks/course.arc'' course_arc) = Inr (files course_arc)"
    and "map_sum id (\<lambda>a. fst (get_all_files a)) (decode_encoded ''tracks/course.arc'' course_arc)
     = Inr [(dir_prefix (splitext_root ''tracks/course.arc'') @ ''point/point_001.bin'',
             Some (ArcFile ''point_001.bin'' [1, 2]))]"
    by blast+
  then show ?thesis
    unfolding r fs by (simp add: dir_prefix_def)
qed

subsection \<open>Alignment of the encoder's output\<close>





lemma set_padding: "set (padding n) \<subseteq> {0}"
  by (auto simp: padding_def)



subsection \<open>Reading back what the encoder wrote\<close>

lemma length_to_bytes_big [simp]: "length (to_bytes_big n x) = n"
  by (induction n) auto

lemma from_bytes_big_Nil [simp]: "from_bytes_big [] = 0"
  by (simp add: from_bytes_big_def)



















subsection \<open>The decoder depends on the stream only through its reads\<close>

lemma load_dir_step_cong:
  assumes "same_view bs' es' bs es stbl"
  shows "load_dir_step bs' es' stbl x st = load_dir_step bs es stbl x st"
proof (cases "x < length es")
  case False
  with assms show ?thesis by (simp add: load_dir_step_def same_view_def)
next
  case True
  with assms have l: "length es' = length es" and r: "entry_rel (es' ! x) (es ! x)"
    and n: "read_terminated_string bs' (stbl + name_off (es ! x))
           = read_terminated_string bs (stbl + name_off (es ! x))"
    and d: "\<not> is_dir (es ! x) \<Longrightarrow>
            read bs' (parent_or_file_off (es ! x)) (next_entry_or_len (es ! x))
              = read bs (parent_or_file_off (es ! x)) (next_entry_or_len (es ! x))"
    by (auto simp: same_view_def)
  from r have r1: "is_dir (es' ! x) = is_dir (es ! x)" "name_off (es' ! x) = name_off (es ! x)"
    "next_entry_or_len (es' ! x) = next_entry_or_len (es ! x)"
    and r2: "\<not> is_dir (es ! x) \<Longrightarrow> parent_or_file_off (es' ! x) = parent_or_file_off (es ! x)"
    by (auto simp: entry_rel_def)
  show ?thesis
  proof (cases "read_terminated_string bs (stbl + name_off (es ! x))")
    case (Inl err)
    with l \<open>x < length es\<close> r1 n show ?thesis
      by (simp add: load_dir_step_def Let_def)
  next
    case (Inr np)
    obtain name p where np: "np = (name, p)" by (cases np)
    show ?thesis
    proof (cases "is_dir (es ! x)")
      case True
      with Inr np l \<open>x < length es\<close> r1 n show ?thesis
        by (simp add: load_dir_step_def Let_def)
    next
      case False
      with Inr np l \<open>x < length es\<close> r1 r2 n d show ?thesis
        by (simp add: load_dir_step_def Let_def)
    qed
  qed
qed

lemma load_dir_loop_cong:
  assumes "same_view bs' es' bs es stbl"
  shows "load_dir_loop bs' es' stbl xs st = load_dir_loop bs es stbl xs st"
proof (induction xs arbitrary: st)
  case Nil
  show ?case by simp
next
  case (Cons x xs)
  show ?case
    by (cases "load_dir_step bs es stbl x st") (simp_all add: load_dir_step_cong [OF assms] Cons.IH)
qed

lemma load_dir_cong:
  assumes "same_view bs' es' bs es stbl"
  shows "load_dir bs' es' stbl i pos parsed = load_dir bs es stbl i pos parsed"
proof (cases "i < length es")
  case False
  with assms show ?thesis by (simp add: load_dir_def same_view_def)
next
  case True
  with assms have "length es' = length es"
    and "next_entry_or_len (es' ! i) = next_entry_or_len (es ! i)"
    by (auto simp: same_view_def entry_rel_def)
  with True show ?thesis
    by (simp add: load_dir_def load_dir_loop_cong [OF assms])
qed

lemma load_top_step_cong:
  assumes "same_view bs' es' bs es stbl"
  shows "load_top_step bs' es' stbl i s = load_top_step bs es stbl i s"
proof -
  obtain pos parsed fs where s: "s = (pos, parsed, fs)" by (cases s)
  show ?thesis
  proof (cases "i < length es")
    case False
    with assms s show ?thesis by (simp add: load_top_step_def same_view_def)
  next
    case True
    with assms have l: "length es' = length es" and r: "entry_rel (es' ! i) (es ! i)"
      and n: "read_terminated_string bs' (stbl + name_off (es ! i))
           = read_terminated_string bs (stbl + name_off (es ! i))"
      and d: "\<And>name p. \<not> is_dir (es ! i) \<Longrightarrow>
            read_terminated_string bs (stbl + name_off (es ! i)) = Inr (name, p) \<Longrightarrow>
            read bs' p (next_entry_or_len (es ! i)) = read bs p (next_entry_or_len (es ! i))"
      by (auto simp: same_view_def)
    from r have r1: "is_dir (es' ! i) = is_dir (es ! i)" "name_off (es' ! i) = name_off (es ! i)"
      "next_entry_or_len (es' ! i) = next_entry_or_len (es ! i)"
      by (auto simp: entry_rel_def)
    show ?thesis
    proof (cases "read_terminated_string bs (stbl + name_off (es ! i))")
      case (Inl err)
      with l \<open>i < length es\<close> r1 n s show ?thesis
        by (simp add: load_top_step_def Let_def)
    next
      case (Inr np)
      obtain name p where np: "np = (name, p)" by (cases np)
      show ?thesis
      proof (cases "is_dir (es ! i)")
        case True
        with Inr np l \<open>i < length es\<close> r1 n s show ?thesis
          by (simp add: load_top_step_def Let_def load_dir_cong [OF assms])
      next
        case False
        from d [OF False] Inr np
        have "read bs' p (next_entry_or_len (es ! i)) = read bs p (next_entry_or_len (es ! i))"
          by simp
        with Inr np False l \<open>i < length es\<close> r1 n s show ?thesis
          by (simp add: load_top_step_def Let_def)
      qed
    qed
  qed
qed

lemma load_top_loop_cong:
  assumes "same_view bs' es' bs es stbl"
  shows "load_top_loop bs' es' stbl is s = load_top_loop bs es stbl is s"
proof (induction "is" arbitrary: s)
  case Nil
  show ?case by simp
next
  case (Cons i "is")
  show ?case
    by (cases "load_top_step bs es stbl i s") (simp_all add: load_top_step_cong [OF assms] Cons.IH)
qed

lemma load_from_bin_cong:
  assumes h: "read_header bs pos = Inr (fs, p0)" and h': "read_header bs' pos = Inr (fs, p0')"
    and a: "open_arc bs pos fs = Inr (es, stbl)" and a': "open_arc bs' pos fs = Inr (es', stbl)"
    and v: "same_view bs' es' bs es stbl"
  shows "load_from_bin \<lparr>stream_name = nm, stream_bytes = bs'\<rparr> pos
       = load_from_bin \<lparr>stream_name = nm, stream_bytes = bs\<rparr> pos"
proof -
  from a have "es \<noteq> []" by (auto simp: open_arc_def Let_def split: sum.splits)
  then have "0 < length es" by simp
  with v have "next_entry_or_len (es' ! 0) = next_entry_or_len (es ! 0)"
    by (auto simp: same_view_def entry_rel_def)
  then show ?thesis
    by (cases "load_top_loop bs es stbl [1 ..< next_entry_or_len (es ! 0)] (stbl, [], [])")
       (simp_all add: load_from_bin_def h h' a a' load_top_loop_cong [OF v])
qed

subsection \<open>Reading entry records at their positions\<close>

lemma load_entry_pos:
  "load_entry bs p = Inr (e, q) \<Longrightarrow> q = p + 12 \<and> p + 12 \<le> length bs"
  by (auto simp: load_entry_def read_def Let_def split: if_splits)

lemma load_entries_nth:
  "load_entries bs n p = Inr (es, q) \<Longrightarrow>
   length es = n \<and> q = p + 12 * n \<and>
   (\<forall>k < n. load_entry bs (p + 12 * k) = Inr (es ! k, p + 12 * k + 12))"
proof (induction n arbitrary: p es q)
  case 0
  then show ?case by simp
next
  case (Suc n)
  from Suc.prems obtain e p1 est where e: "load_entry bs p = Inr (e, p1)"
    and r: "load_entries bs n p1 = Inr (est, q)" and es: "es = e # est"
    by (auto split: sum.splits)
  from load_entry_pos [OF e] have p1: "p1 = p + 12" by simp
  from Suc.IH [OF r] have l: "length est = n" and q: "q = p1 + 12 * n"
    and ih: "\<And>k. k < n \<Longrightarrow> load_entry bs (p1 + 12 * k) = Inr (est ! k, p1 + 12 * k + 12)"
    by auto
  have "load_entry bs (p + 12 * k) = Inr (es ! k, p + 12 * k + 12)" if "k < Suc n" for k
  proof (cases k)
    case 0
    with e p1 es show ?thesis by simp
  next
    case (Suc k')
    with that ih [of k'] p1 es show ?thesis by (simp add: add.assoc add.left_commute)
  qed
  with l q p1 es show ?case by simp
qed

lemma load_entries_intro:
  "length es = n \<Longrightarrow>
   (\<And>k. k < n \<Longrightarrow> load_entry bs (p + 12 * k) = Inr (es ! k, p + 12 * k + 12)) \<Longrightarrow>
   load_entries bs n p = Inr (es, p + 12 * n)"
proof (induction n arbitrary: p es)
  case 0
  then show ?case by simp
next
  case (Suc n)
  from Suc.prems(1) obtain e est where es: "es = e # est" and l: "length est = n"
    by (cases es) auto
  from Suc.prems(2) [of 0] es have e: "load_entry bs p = Inr (e, p + 12)" by simp
  have "load_entries bs n (p + 12) = Inr (est, p + 12 + 12 * n)"
  proof (rule Suc.IH [OF l])
    fix k assume "k < n"
    with Suc.prems(2) [of "Suc k"] es
    show "load_entry bs (p + 12 + 12 * k) = Inr (est ! k, p + 12 + 12 * k + 12)"
      by (simp add: add.assoc add.left_commute)
  qed
  with e es show ?case by (simp add: add.assoc)
qed

lemma open_arc_nth:
  assumes "open_arc bs pos fs = Inr (es, stbl)"
  shows "0 \<le> int pos + fs" and "es \<noteq> []"
    and "length es = Suc (next_entry_or_len (es ! 0) - 1)"
    and "stbl = nat (int pos + fs) + 12 * length es"
    and "\<forall>k < length es. load_entry bs (nat (int pos + fs) + 12 * k)
            = Inr (es ! k, nat (int pos + fs) + 12 * k + 12)"
proof -
  let ?fp = "nat (int pos + fs)"
  from assms show nn: "0 \<le> int pos + fs"
    by (auto simp: open_arc_def seek_def split: if_splits)
  with assms obtain head p1 nodes where h: "load_entry bs ?fp = Inr (head, p1)"
    and r: "load_entries bs (next_entry_or_len head - 1) p1 = Inr (nodes, stbl)"
    and es: "es = head # nodes"
    by (auto simp: open_arc_def seek_def Let_def split: sum.splits)
  from load_entry_pos [OF h] have p1: "p1 = ?fp + 12" by simp
  from load_entries_nth [OF r] have l: "length nodes = next_entry_or_len head - 1"
    and q: "stbl = p1 + 12 * (next_entry_or_len head - 1)"
    and ih: "\<And>k. k < next_entry_or_len head - 1 \<Longrightarrow>
        load_entry bs (p1 + 12 * k) = Inr (nodes ! k, p1 + 12 * k + 12)"
    by auto
  from es show "es \<noteq> []" by simp
  from es l show "length es = Suc (next_entry_or_len (es ! 0) - 1)" by simp
  from es l q p1 show "stbl = ?fp + 12 * length es" by simp
  show "\<forall>k < length es. load_entry bs (?fp + 12 * k) = Inr (es ! k, ?fp + 12 * k + 12)"
  proof (intro allI impI)
    fix k assume k: "k < length es"
    show "load_entry bs (?fp + 12 * k) = Inr (es ! k, ?fp + 12 * k + 12)"
    proof (cases k)
      case 0
      with h p1 es show ?thesis by simp
    next
      case (Suc k')
      with k es l ih [of k'] p1 show ?thesis by (simp add: add.assoc add.left_commute)
    qed
  qed
qed

lemma open_arc_intro:
  assumes nn: "0 \<le> int pos + fs" and ne: "es \<noteq> []"
    and len: "length es = Suc (next_entry_or_len (es ! 0) - 1)"
    and ent: "\<And>k. k < length es \<Longrightarrow> load_entry bs (nat (int pos + fs) + 12 * k)
            = Inr (es ! k, nat (int pos + fs) + 12 * k + 12)"
  shows "open_arc bs pos fs = Inr (es, nat (int pos + fs) + 12 * length es)"
proof -
  let ?fp = "nat (int pos + fs)"
  from ne obtain head nodes where es: "es = head # nodes" by (cases es) auto
  from ent [of 0] es have h: "load_entry bs ?fp = Inr (head, ?fp + 12)" by simp
  from len es have l: "length nodes = next_entry_or_len head - 1" by simp
  have "load_entries bs (next_entry_or_len head - 1) (?fp + 12)
      = Inr (nodes, ?fp + 12 + 12 * (next_entry_or_len head - 1))"
  proof (rule load_entries_intro [OF l])
    fix k assume "k < next_entry_or_len head - 1"
    with ent [of "Suc k"] es l
    show "load_entry bs (?fp + 12 + 12 * k) = Inr (nodes ! k, ?fp + 12 + 12 * k + 12)"
      by (simp add: add.assoc add.left_commute)
  qed
  with nn h es l show ?thesis
    by (simp add: open_arc_def seek_def add.assoc)
qed

subsection \<open>Streams that differ in the parent field of directory records\<close>

lemma take_drop_agree:
  assumes "length bs' = length bs"
    and "\<And>i. i < length bs \<Longrightarrow> p \<le> i \<Longrightarrow> i < p + n \<Longrightarrow> bs' ! i = bs ! i"
  shows "take n (drop p bs') = take n (drop p (bs :: 'a list))"
proof (rule nth_equalityI)
  show "length (take n (drop p bs')) = length (take n (drop p bs))"
    using assms(1) by simp
next
  fix j assume "j < length (take n (drop p bs'))"
  then have j: "j < n" "p + j < length bs" using assms(1) by auto
  then have "bs' ! (p + j) = bs ! (p + j)" by (intro assms(2)) auto
  with j assms(1) show "take n (drop p bs') ! j = take n (drop p bs) ! j" by simp
qed

lemma drop_agree:
  assumes "length bs' = length bs"
    and "\<And>i. i < length bs \<Longrightarrow> p \<le> i \<Longrightarrow> bs' ! i = bs ! i"
  shows "drop p bs' = drop p (bs :: 'a list)"
proof -
  have "take (length bs) (drop p bs') = take (length bs) (drop p bs)"
    by (rule take_drop_agree [OF assms(1)]) (rule assms(2))
  with assms(1) show ?thesis by simp
qed

lemma load_entry_parent_changed:
  assumes e: "load_entry bs p = Inr (e, q)" and len: "length bs' = length bs"
    and diff: "\<And>i. i < length bs \<Longrightarrow> p \<le> i \<Longrightarrow> i < p + 12 \<Longrightarrow> bs' ! i \<noteq> bs ! i \<Longrightarrow>
                 is_dir e \<and> p + 4 \<le> i \<and> i < p + 8"
  shows "\<exists>e'. load_entry bs' p = Inr (e', q) \<and> entry_rel e' e"
proof -
  let ?b = "take 12 (drop p bs)" and ?b' = "take 12 (drop p bs')"
  from load_entry_pos [OF e] have q: "q = p + 12" and inb: "p + 12 \<le> length bs" by auto
  from inb len have l: "length ?b = 12" and l': "length ?b' = 12" by auto
  have t1: "take 4 ?b' = take 4 ?b"
  proof -
    have "take 4 (drop p bs') = take 4 (drop p bs)"
      by (rule take_drop_agree [OF len]) (use diff in force)
    then show ?thesis by (simp add: min_def)
  qed
  have t3: "take 4 (drop 8 ?b') = take 4 (drop 8 ?b)"
  proof -
    have "take 4 (drop (p + 8) bs') = take 4 (drop (p + 8) bs)"
      by (rule take_drop_agree [OF len]) (use diff in force)
    then show ?thesis by (simp add: drop_take add.commute)
  qed
  have t2: "take 4 (drop 4 ?b') = take 4 (drop 4 ?b)" if "\<not> is_dir e"
  proof -
    have "take 4 (drop (p + 4) bs') = take 4 (drop (p + 4) bs)"
      by (rule take_drop_agree [OF len]) (use diff that in force)
    then show ?thesis by (simp add: drop_take add.commute)
  qed
  from e l have ev: "e = \<lparr> is_dir = (from_bytes_big (take 4 ?b) div 2 ^ 24 \<noteq> 0),
                    name_off = from_bytes_big (take 4 ?b) mod 2 ^ 24,
                    parent_or_file_off = from_bytes_big (take 4 (drop 4 ?b)),
                    next_entry_or_len = from_bytes_big (take 4 (drop 8 ?b)) \<rparr>"
    by (simp add: load_entry_def read_def Let_def del: take_all_iff)
  let ?e' = "\<lparr> is_dir = (from_bytes_big (take 4 ?b') div 2 ^ 24 \<noteq> 0),
                    name_off = from_bytes_big (take 4 ?b') mod 2 ^ 24,
                    parent_or_file_off = from_bytes_big (take 4 (drop 4 ?b')),
                    next_entry_or_len = from_bytes_big (take 4 (drop 8 ?b')) \<rparr>"
  from l' q have 1: "load_entry bs' p = Inr (?e', q)"
    by (simp add: load_entry_def read_def Let_def del: take_all_iff)
  have d: "is_dir ?e' = is_dir e" by (subst ev) (simp only: fst_entry.simps t1)
  have 2: "entry_rel ?e' e"
    unfolding entry_rel_def
  proof (intro conjI impI)
    show "is_dir ?e' = is_dir e" by (rule d)
    show "name_off ?e' = name_off e" by (subst ev) (simp only: fst_entry.simps t1)
    show "next_entry_or_len ?e' = next_entry_or_len e" by (subst ev) (simp only: fst_entry.simps t3)
    assume "\<not> is_dir e"
    from t2 [OF this] show "parent_or_file_off ?e' = parent_or_file_off e"
      by (subst ev) (simp only: fst_entry.simps)
  qed
  from 1 2 show ?thesis by blast
qed

lemma take_terminated_consumed: "snd (take_terminated bs) \<le> length bs"
  by (induction bs) (auto split: prod.splits)

lemma read_terminated_string_pos:
  "read_terminated_string bs q = Inr (name, p) \<Longrightarrow> q \<le> p"
  by (auto simp: read_terminated_string_def split: prod.splits if_splits)

lemma read_terminated_string_drop:
  "drop q bs' = drop q bs \<Longrightarrow> read_terminated_string bs' q = read_terminated_string bs q"
  by (simp add: read_terminated_string_def)

lemma read_drop: "drop p bs' = drop p bs \<Longrightarrow> read bs' p n = read bs p n"
  by (simp add: read_def)

lemma read_header_agree:
  assumes len: "length bs' = length bs"
    and same: "\<And>i. i < length bs \<Longrightarrow> i < pos + 16 \<Longrightarrow> bs' ! i = bs ! i"
  shows "read_header bs' pos = read_header bs pos"
proof -
  have 1: "take 4 (drop pos bs') = take 4 (drop pos bs)"
    by (rule take_drop_agree [OF len]) (use same in force)
  have 2: "take 12 (drop (pos + 4) bs') = take 12 (drop (pos + 4) bs)"
    by (rule take_drop_agree [OF len]) (use same in force)
  show ?thesis
  proof (cases "length (take 4 (drop pos bs)) = 4")
    case False
    with 1 show ?thesis by (simp add: read_header_def read_def Let_def)
  next
    case True
    with 1 2 len show ?thesis
      by (simp add: read_header_def read_def Let_def del: take_all_iff)
  qed
qed

text \<open>
  Claim C8. Take a stream whose header and entry table decode, whose table starts after
  the header fields and whose file data start after the table. A second stream of the same
  length that differs from it only inside bytes 4 to 7 of directory records decodes to the
  same result.
\<close>

theorem decoder_ignores_directory_parent:
  assumes hdr: "read_header bs pos = Inr (fst_start, p0)"
    and arc: "open_arc bs pos fst_start = Inr (es, stbl)"
    and after: "16 \<le> fst_start"
    and data: "\<forall>e \<in> set es. \<not> is_dir e \<longrightarrow> stbl \<le> parent_or_file_off e"
    and len: "length bs' = length bs"
    and diff: "\<forall>i < length bs. bs' ! i \<noteq> bs ! i \<longrightarrow>
                 (\<exists>k < length es. is_dir (es ! k) \<and>
                    nat (int pos + fst_start) + 12 * k + 4 \<le> i \<and>
                    i < nat (int pos + fst_start) + 12 * k + 8)"
  shows "load_from_bin \<lparr>stream_name = nm, stream_bytes = bs'\<rparr> pos
       = load_from_bin \<lparr>stream_name = nm, stream_bytes = bs\<rparr> pos"
proof -
  let ?fp = "nat (int pos + fst_start)"
  note oa = open_arc_nth [OF arc]
  from after have fp: "pos + 16 \<le> ?fp" by simp
  from oa(4) have stbl: "stbl = ?fp + 12 * length es" .
  have changed: "\<exists>k < length es. is_dir (es ! k) \<and> ?fp + 12 * k + 4 \<le> i \<and> i < ?fp + 12 * k + 8"
    if "i < length bs" "bs' ! i \<noteq> bs ! i" for i
    using diff that by blast
  have head_same: "bs' ! i = bs ! i" if "i < length bs" "i < pos + 16" for i
  proof (rule ccontr)
    assume "bs' ! i \<noteq> bs ! i"
    from changed [OF that(1) this] that(2) fp show False by auto
  qed
  have tail_same: "bs' ! i = bs ! i" if "i < length bs" "stbl \<le> i" for i
  proof (rule ccontr)
    assume "bs' ! i \<noteq> bs ! i"
    from changed [OF that(1) this] obtain k where "k < length es" "i < ?fp + 12 * k + 8" by blast
    then have "12 * k + 12 \<le> 12 * length es" and "i < ?fp + 12 * k + 8" by auto
    then have "i < ?fp + 12 * length es" by linarith
    with that(2) stbl show False by simp
  qed
  have drop_same: "drop p bs' = drop p bs" if "stbl \<le> p" for p
    by (rule drop_agree [OF len]) (use tail_same that in force)
  have hdr': "read_header bs' pos = Inr (fst_start, p0)"
    using read_header_agree [OF len head_same] hdr by simp
  have ent: "\<exists>e'. load_entry bs' (?fp + 12 * k) = Inr (e', ?fp + 12 * k + 12) \<and> entry_rel e' (es ! k)"
    if k: "k < length es" for k
  proof (rule load_entry_parent_changed [OF _ len])
    from oa(5) k show "load_entry bs (?fp + 12 * k) = Inr (es ! k, ?fp + 12 * k + 12)" by blast
  next
    fix i assume i: "i < length bs" "?fp + 12 * k \<le> i" "i < ?fp + 12 * k + 12" "bs' ! i \<noteq> bs ! i"
    from changed [OF i(1) i(4)] obtain k' where k': "k' < length es" "is_dir (es ! k')"
      "?fp + 12 * k' + 4 \<le> i" "i < ?fp + 12 * k' + 8" by blast
    have "k' = k"
    proof (rule ccontr)
      assume "k' \<noteq> k"
      then have "12 * k' + 12 \<le> 12 * k \<or> 12 * k + 12 \<le> 12 * k'" by auto
      with k'(3,4) i(2,3) show False by linarith
    qed
    with k' show "is_dir (es ! k) \<and> ?fp + 12 * k + 4 \<le> i \<and> i < ?fp + 12 * k + 8" by simp
  qed
  then have "\<forall>k \<in> {..<length es}. \<exists>e'. load_entry bs' (?fp + 12 * k) = Inr (e', ?fp + 12 * k + 12)
       \<and> entry_rel e' (es ! k)" by simp
  from bchoice [OF this] obtain f where
    f: "\<And>k. k < length es \<Longrightarrow> load_entry bs' (?fp + 12 * k) = Inr (f k, ?fp + 12 * k + 12)
          \<and> entry_rel (f k) (es ! k)"
    by auto
  let ?es' = "map f [0 ..< length es]"
  have l': "length ?es' = length es" by simp
  have nth': "?es' ! k = f k" if "k < length es" for k using that by simp
  from oa(2) have pos0: "0 < length es" by simp
  have "entry_rel (?es' ! 0) (es ! 0)" using f [OF pos0] nth' [OF pos0] by simp
  then have n0: "next_entry_or_len (?es' ! 0) = next_entry_or_len (es ! 0)"
    by (simp add: entry_rel_def)
  have arc': "open_arc bs' pos fst_start = Inr (?es', ?fp + 12 * length ?es')"
  proof (rule open_arc_intro [OF oa(1)])
    from pos0 show "?es' \<noteq> []" by simp
    from oa(3) n0 show "length ?es' = Suc (next_entry_or_len (?es' ! 0) - 1)" by simp
    fix k assume "k < length ?es'"
    then have "k < length es" by simp
    from f [OF this] nth' [OF this]
    show "load_entry bs' (?fp + 12 * k) = Inr (?es' ! k, ?fp + 12 * k + 12)" by simp
  qed
  have view: "same_view bs' ?es' bs es stbl"
    unfolding same_view_def
  proof (intro conjI allI impI)
    show "length ?es' = length es" by simp
  next
    fix x assume x: "x < length es"
    from f [OF x] nth' [OF x] show "entry_rel (?es' ! x) (es ! x)" by simp
    show "read_terminated_string bs' (stbl + name_off (es ! x))
        = read_terminated_string bs (stbl + name_off (es ! x))"
      by (rule read_terminated_string_drop) (simp add: drop_same)
  next
    fix x assume x: "x < length es" and nd: "\<not> is_dir (es ! x)"
    from x have "es ! x \<in> set es" by simp
    with data nd have "stbl \<le> parent_or_file_off (es ! x)" by blast
    then show "read bs' (parent_or_file_off (es ! x)) (next_entry_or_len (es ! x))
        = read bs (parent_or_file_off (es ! x)) (next_entry_or_len (es ! x))"
      by (intro read_drop drop_same)
  next
    fix x name p assume "read_terminated_string bs (stbl + name_off (es ! x)) = Inr (name, p)"
    from read_terminated_string_pos [OF this] have "stbl \<le> p" by simp
    then show "read bs' p (next_entry_or_len (es ! x)) = read bs p (next_entry_or_len (es ! x))"
      by (intro read_drop drop_same)
  qed
  from arc' stbl have arc'': "open_arc bs' pos fst_start = Inr (?es', stbl)" by simp
  show ?thesis by (rule load_from_bin_cong [OF hdr hdr' arc arc'' view])
qed

lemma course_read_header: "read_header course_bytes 0 = Inr (32, 32)"
  unfolding course_bytes_def by (simp add: dec_defs)

text \<open>
  The stream of the concrete scenario with the parent field of the record of \<open>point\<close>
  (bytes 48 to 51) changed from 0 to 7 decodes as before.
\<close>

theorem decoder_ignores_parent_witness:
  "read_header course_bytes 0 = Inr (32, 32) \<and>
   open_arc course_bytes 0 32 = Inr (lay_entries course_layout, 68) \<and>
   (course_bytes[51 := 7]) ! 51 \<noteq> course_bytes ! 51 \<and>
   load_from_bin \<lparr>stream_name = ''course.arc'', stream_bytes = course_bytes[51 := 7]\<rparr> 0
     = load_from_bin \<lparr>stream_name = ''course.arc'', stream_bytes = course_bytes\<rparr> 0"
proof -
  have h3: "(16::int) \<le> 32" by simp
  have h4: "\<forall>e \<in> set (lay_entries course_layout). \<not> is_dir e \<longrightarrow> 68 \<le> parent_or_file_off e"
    by (simp add: course_layout_def)
  have h5: "length (course_bytes[51 := 7]) = length course_bytes" by simp
  have h6: "\<forall>i < length course_bytes. (course_bytes[51 := 7]) ! i \<noteq> course_bytes ! i \<longrightarrow>
      (\<exists>k < length (lay_entries course_layout). is_dir (lay_entries course_layout ! k) \<and>
          nat (int 0 + 32) + 12 * k + 4 \<le> i \<and> i < nat (int 0 + 32) + 12 * k + 8)"
  proof (intro allI impI)
    fix i assume "i < length course_bytes" and d: "(course_bytes[51 := 7]) ! i \<noteq> course_bytes ! i"
    then have i: "i = 51" by (cases "i = 51") simp_all
    have "(1::nat) < length (lay_entries course_layout) \<and> is_dir (lay_entries course_layout ! 1) \<and>
          nat (int 0 + 32) + 12 * 1 + 4 \<le> (51::nat) \<and> (51::nat) < nat (int 0 + 32) + 12 * 1 + 8"
      by (simp add: course_layout_def)
    with i show "\<exists>k < length (lay_entries course_layout). is_dir (lay_entries course_layout ! k) \<and>
          nat (int 0 + 32) + 12 * k + 4 \<le> i \<and> i < nat (int 0 + 32) + 12 * k + 8"
      by blast
  qed
  have ne: "(course_bytes[51 := 7]) ! 51 \<noteq> course_bytes ! 51"
    by (simp add: course_bytes_def)
  from decoder_ignores_directory_parent [OF course_read_header course_open_arc h3 h4 h5 h6]
    course_read_header course_open_arc ne
  show ?thesis by simp
qed

text \<open>
  Claim C4 as stated fails. The stream of the concrete scenario cut after 97 bytes (one of
  the file's two bytes is missing) decodes to a one-byte file; cut after 96 bytes (the file
  offset is then the end of the stream) it decodes to an empty file; with the file record's
  name offset set to \<open>0xFFFFFF\<close> it decodes to a file with the empty name.
\<close>

theorem lenient_decode_counterexample:
  "map_sum id files
     (load_from_bin \<lparr>stream_name = ''course.arc'', stream_bytes = take 97 course_bytes\<rparr> 0)
     = Inr [(''point'', Dir [(''point_001.bin'', File (ArcFile ''point_001.bin'' [1]))])] \<and>
   map_sum id files
     (load_from_bin \<lparr>stream_name = ''course.arc'', stream_bytes = take 96 course_bytes\<rparr> 0)
     = Inr [(''point'', Dir [(''point_001.bin'', File (ArcFile ''point_001.bin'' []))])] \<and>
   map_sum id files
     (load_from_bin \<lparr>stream_name = ''course.arc'',
        stream_bytes = course_bytes[57 := 255, 58 := 255, 59 := 255]\<rparr> 0)
     = Inr [(''point'', Dir [([], File (ArcFile [] [1, 2]))])]"
  unfolding course_bytes_def
  by (simp add: dec_defs)

subsection \<open>Failures of the decoder and trailing bytes\<close>

lemma magic_mismatch:
  assumes "length (take 4 (drop pos (stream_bytes s))) = 4"
    and "take 4 (drop pos (stream_bytes s)) \<noteq> U8_FILE_MAGIC"
  shows "load_from_bin s pos = Inl AssertionError"
  using assms by (simp add: load_from_bin_def read_header_def read_def Let_def del: take_all_iff)

lemma header_cut:
  assumes "length (stream_bytes s) < pos + 16"
  shows "\<exists>e. load_from_bin s pos = Inl e"
proof (cases "read_header (stream_bytes s) pos")
  case (Inl e)
  then show ?thesis by (simp add: load_from_bin_def)
next
  case (Inr x)
  let ?bs = "stream_bytes s"
  from Inr have 1: "length (take 4 (drop pos ?bs)) = 4"
    by (auto simp: read_header_def read_def Let_def simp del: length_take length_drop take_all_iff
        split: if_splits)
  with Inr have 2: "length (take 12 (drop (pos + 4) ?bs)) = 12"
    by (auto simp: read_header_def read_def Let_def simp del: length_take length_drop take_all_iff
        split: if_splits)
  from 2 assms have False by simp
  then show ?thesis ..
qed

lemma load_entry_cut: "length bs < p + 12 \<Longrightarrow> load_entry bs p = Inl StructError"
proof -
  assume "length bs < p + 12"
  then have "length bs - p < 12" by arith
  moreover have "length (take 12 (drop p bs)) \<le> length bs - p" by simp
  ultimately have "length (take 12 (drop p bs)) \<noteq> 12" by linarith
  then show ?thesis
    by (simp add: load_entry_def read_def Let_def del: length_take length_drop take_all_iff)
qed

lemma load_entries_cut:
  "p \<le> length bs \<Longrightarrow> length bs < p + 12 * n \<Longrightarrow> load_entries bs n p = Inl StructError"
proof (induction n arbitrary: p)
  case 0
  then show ?case by simp
next
  case (Suc n)
  show ?case
  proof (cases "load_entry bs p")
    case (Inl err)
    then have "err = StructError" by (auto simp: load_entry_def read_def Let_def split: if_splits)
    with Inl show ?thesis by simp
  next
    case (Inr eq)
    obtain e q where eq: "eq = (e, q)" by (cases eq)
    from load_entry_pos [of bs p e q] Inr eq have q: "q = p + 12" and inb: "p + 12 \<le> length bs"
      by auto
    from Suc.prems have "length bs < p + 12 + 12 * n" by simp
    from Suc.IH [OF inb this] Inr eq q show ?thesis by simp
  qed
qed

lemma fst_cut:
  assumes hdr: "read_header (stream_bytes s) pos = Inr (fst_start, p0)"
    and nn: "0 \<le> int pos + fst_start"
    and cut: "length (stream_bytes s) < nat (int pos + fst_start) + 12 \<or>
              (\<exists>head q. load_entry (stream_bytes s) (nat (int pos + fst_start)) = Inr (head, q) \<and>
                 length (stream_bytes s) < nat (int pos + fst_start) + 12 * next_entry_or_len head)"
  shows "load_from_bin s pos = Inl StructError"
proof -
  let ?bs = "stream_bytes s" and ?fp = "nat (int pos + fst_start)"
  have "open_arc ?bs pos fst_start = Inl StructError"
  proof (cases "load_entry ?bs ?fp")
    case (Inl err)
    then have "err = StructError" by (auto simp: load_entry_def read_def Let_def split: if_splits)
    with Inl nn show ?thesis by (simp add: open_arc_def seek_def)
  next
    case (Inr hq)
    obtain head q where hq: "hq = (head, q)" by (cases hq)
    from load_entry_pos [of ?bs ?fp head q] Inr hq have q: "q = ?fp + 12" and inb: "?fp + 12 \<le> length ?bs"
      by auto
    with cut Inr hq have c: "length ?bs < ?fp + 12 * next_entry_or_len head" by auto
    with inb have "0 < next_entry_or_len head" by (cases "next_entry_or_len head") auto
    with c have "length ?bs < q + 12 * (next_entry_or_len head - 1)"
      unfolding q by (cases "next_entry_or_len head") auto
    moreover from inb q have "q \<le> length ?bs" by simp
    ultimately have "load_entries ?bs (next_entry_or_len head - 1) q = Inl StructError"
      by (intro load_entries_cut)
    with Inr hq nn show ?thesis
      by (simp add: open_arc_def seek_def)
  qed
  with hdr show ?thesis by (simp add: load_from_bin_def)
qed

lemma take_terminated_append:
  "0 \<in> set xs \<Longrightarrow> take_terminated (xs @ ys) = take_terminated xs"
  by (induction xs) (auto split: prod.splits)

lemma read_terminated_string_append:
  assumes "0 \<in> set (drop q bs)"
  shows "read_terminated_string (bs @ ex) q = read_terminated_string bs q"
proof -
  from assms have "q < length bs" by (cases "q < length bs") auto
  then have "drop q (bs @ ex) = drop q bs @ ex" by simp
  with assms show ?thesis
    by (simp add: read_terminated_string_def take_terminated_append)
qed

lemma read_append: "p + n \<le> length bs \<Longrightarrow> read (bs @ ex) p n = read bs p n"
  by (simp add: read_def)

lemma load_entry_append: "p + 12 \<le> length bs \<Longrightarrow> load_entry (bs @ ex) p = load_entry bs p"
  by (simp add: load_entry_def read_append)

lemma read_header_append:
  assumes "pos + 32 \<le> length bs"
  shows "read_header (bs @ ex) pos = read_header bs pos"
proof -
  from assms have 1: "read (bs @ ex) pos 4 = read bs pos 4" by (intro read_append) simp
  from assms have l1: "snd (read bs pos 4) = pos + 4" by (simp add: read_def)
  from assms have 2: "read (bs @ ex) (pos + 4) 12 = read bs (pos + 4) 12"
    by (intro read_append) simp
  from assms have l2: "snd (read bs (pos + 4) 12) = pos + 16" by (simp add: read_def)
  from assms have 3: "read (bs @ ex) (pos + 16) 16 = read bs (pos + 16) 16"
    by (intro read_append) simp
  obtain m where m: "read bs pos 4 = (m, pos + 4)" using l1 by (cases "read bs pos 4") simp
  obtain h where h: "read bs (pos + 4) 12 = (h, pos + 16)"
    using l2 by (cases "read bs (pos + 4) 12") simp
  show ?thesis
    unfolding read_header_def 1 m by (simp add: Let_def 2 h 3)
qed

lemma open_arc_append:
  assumes "open_arc bs pos fs = Inr (es, stbl)"
  shows "open_arc (bs @ ex) pos fs = Inr (es, stbl)"
proof -
  note oa = open_arc_nth [OF assms]
  have "open_arc (bs @ ex) pos fs = Inr (es, nat (int pos + fs) + 12 * length es)"
  proof (rule open_arc_intro [OF oa(1,2,3)])
    fix k assume "k < length es"
    with oa(5) have e: "load_entry bs (nat (int pos + fs) + 12 * k)
        = Inr (es ! k, nat (int pos + fs) + 12 * k + 12)" by blast
    from load_entry_pos [OF e] have "nat (int pos + fs) + 12 * k + 12 \<le> length bs" by simp
    from load_entry_append [OF this] e
    show "load_entry (bs @ ex) (nat (int pos + fs) + 12 * k)
        = Inr (es ! k, nat (int pos + fs) + 12 * k + 12)" by simp
  qed
  with oa(4) show ?thesis by simp
qed

lemma conformingD:
  assumes "conforming bs pos"
  obtains fs p0 es stbl where "read_header bs pos = Inr (fs, p0)" and "pos + 32 \<le> length bs"
    and "open_arc bs pos fs = Inr (es, stbl)"
    and "\<And>x. x < length es \<Longrightarrow> 0 \<in> set (drop (stbl + name_off (es ! x)) bs)"
    and "\<And>x. x < length es \<Longrightarrow> \<exists>name p. read_terminated_string bs (stbl + name_off (es ! x)) = Inr (name, p)
            \<and> (is_dir (es ! x) \<or> p \<le> parent_or_file_off (es ! x))"
    and "\<And>x. x < length es \<Longrightarrow> is_dir (es ! x) \<Longrightarrow> next_entry_or_len (es ! x) \<le> length es"
    and "\<And>x. x < length es \<Longrightarrow> \<not> is_dir (es ! x) \<Longrightarrow>
            parent_or_file_off (es ! x) + next_entry_or_len (es ! x) \<le> length bs"
proof -
  from assms obtain fs p0 where h: "read_header bs pos = Inr (fs, p0)"
    by (cases "read_header bs pos") (auto simp: conforming_def)
  with assms have l: "pos + 32 \<le> length bs" by (simp add: conforming_def)
  from assms h obtain es stbl where a: "open_arc bs pos fs = Inr (es, stbl)"
    by (cases "open_arc bs pos fs") (auto simp: conforming_def)
  from assms h a have all: "\<forall>x < length es.
                  0 \<in> set (drop (stbl + name_off (es ! x)) bs) \<and>
                  (case read_terminated_string bs (stbl + name_off (es ! x)) of
                     Inl err \<Rightarrow> False
                   | Inr (name, p) \<Rightarrow> is_dir (es ! x) \<or> p \<le> parent_or_file_off (es ! x)) \<and>
                  (if is_dir (es ! x) then next_entry_or_len (es ! x) \<le> length es
                   else parent_or_file_off (es ! x) + next_entry_or_len (es ! x) \<le> length bs)"
    by (simp add: conforming_def)
  show thesis
  proof (rule that [OF h l a])
    fix x assume x: "x < length es"
    from all x show "0 \<in> set (drop (stbl + name_off (es ! x)) bs)" by blast
    from all x have "case read_terminated_string bs (stbl + name_off (es ! x)) of
                     Inl err \<Rightarrow> False
                   | Inr (name, p) \<Rightarrow> is_dir (es ! x) \<or> p \<le> parent_or_file_off (es ! x)"
      by blast
    then show "\<exists>name p. read_terminated_string bs (stbl + name_off (es ! x)) = Inr (name, p)
            \<and> (is_dir (es ! x) \<or> p \<le> parent_or_file_off (es ! x))"
      by (cases "read_terminated_string bs (stbl + name_off (es ! x))") auto
  next
    fix x assume x: "x < length es" and d: "is_dir (es ! x)"
    from all x have "if is_dir (es ! x) then next_entry_or_len (es ! x) \<le> length es
        else parent_or_file_off (es ! x) + next_entry_or_len (es ! x) \<le> length bs" by blast
    with d show "next_entry_or_len (es ! x) \<le> length es" by simp
  next
    fix x assume x: "x < length es" and d: "\<not> is_dir (es ! x)"
    from all x have "if is_dir (es ! x) then next_entry_or_len (es ! x) \<le> length es
        else parent_or_file_off (es ! x) + next_entry_or_len (es ! x) \<le> length bs" by blast
    with d show "parent_or_file_off (es ! x) + next_entry_or_len (es ! x) \<le> length bs" by simp
  qed
qed

lemma load_dir_step_ok:
  assumes "x < length es"
    and "read_terminated_string bs (stbl + name_off (es ! x)) = Inr (name, p)"
  shows "\<exists>st'. load_dir_step bs es stbl x st = Inr st'"
  using assms by (simp add: load_dir_step_def Let_def split: prod.splits)

lemma load_dir_loop_ok:
  assumes "\<And>x. x \<in> set xs \<Longrightarrow> x < length es \<and>
      (\<exists>name p. read_terminated_string bs (stbl + name_off (es ! x)) = Inr (name, p))"
  shows "\<exists>st'. load_dir_loop bs es stbl xs st = Inr st'"
  using assms
proof (induction xs arbitrary: st)
  case Nil
  show ?case by simp
next
  case (Cons x xs)
  from Cons.prems [of x] obtain name p where "x < length es"
    and "read_terminated_string bs (stbl + name_off (es ! x)) = Inr (name, p)" by auto
  from load_dir_step_ok [OF this] obtain st1 where s: "load_dir_step bs es stbl x st = Inr st1"
    by blast
  have "\<exists>st'. load_dir_loop bs es stbl xs st1 = Inr st'"
    by (rule Cons.IH) (use Cons.prems in auto)
  with s show ?case by simp
qed

lemma load_top_loop_ok:
  assumes names: "\<And>x. x < length es \<Longrightarrow>
      \<exists>name p. read_terminated_string bs (stbl + name_off (es ! x)) = Inr (name, p)"
    and bounds: "\<And>x. x < length es \<Longrightarrow> is_dir (es ! x) \<Longrightarrow> next_entry_or_len (es ! x) \<le> length es"
    and rng: "\<And>i. i \<in> set is \<Longrightarrow> i < length es"
  shows "\<exists>s'. load_top_loop bs es stbl is s = Inr s'"
  using rng
proof (induction "is" arbitrary: s)
  case Nil
  show ?case by (simp del: split_paired_Ex)
next
  case (Cons i "is")
  obtain pos parsed fs where s: "s = (pos, parsed, fs)" by (cases s) auto
  from Cons.prems have i: "i < length es" by simp
  from names [OF i] obtain name p where
    n: "read_terminated_string bs (stbl + name_off (es ! i)) = Inr (name, p)" by blast
  have "\<exists>s1. load_top_step bs es stbl i s = Inr s1"
  proof (cases "i \<in> set parsed")
    case True
    with s show ?thesis by (simp add: load_top_step_def)
  next
    case False
    show ?thesis
    proof (cases "is_dir (es ! i)")
      case True
      have "\<exists>st'. load_dir_loop bs es stbl [i + 1 ..< next_entry_or_len (es ! i)]
          \<lparr>ds_pos = p, ds_already_parsed = parsed @ [i], ds_dir_files = [], ds_dir_stack = []\<rparr>
          = Inr st'"
      proof (rule load_dir_loop_ok)
        fix x assume "x \<in> set [i + 1 ..< next_entry_or_len (es ! i)]"
        with bounds [OF i True] have "x < length es" by simp
        with names show "x < length es \<and>
            (\<exists>name p. read_terminated_string bs (stbl + name_off (es ! x)) = Inr (name, p))"
          by blast
      qed
      then obtain st' where "load_dir_loop bs es stbl [i + 1 ..< next_entry_or_len (es ! i)]
          \<lparr>ds_pos = p, ds_already_parsed = parsed @ [i], ds_dir_files = [], ds_dir_stack = []\<rparr>
          = Inr st'" ..
      with True False i n s show ?thesis
        by (simp add: load_top_step_def load_dir_def Let_def)
    next
      case nd: False
      with False i n s show ?thesis
        by (simp add: load_top_step_def Let_def split: prod.splits)
    qed
  qed
  then obtain s1 where s1: "load_top_step bs es stbl i s = Inr s1" ..
  have "\<exists>s'. load_top_loop bs es stbl is s1 = Inr s'"
    by (rule Cons.IH) (use Cons.prems in auto)
  with s1 show ?case by simp
qed

lemma conforming_decodes:
  assumes "conforming bs pos"
  shows "\<exists>a. load_from_bin \<lparr>stream_name = nm, stream_bytes = bs\<rparr> pos = Inr a \<and>
             load_from_bin \<lparr>stream_name = nm, stream_bytes = bs @ ex\<rparr> pos = Inr a"
  using assms
proof (rule conformingD)
  fix fs p0 es stbl
  assume h: "read_header bs pos = Inr (fs, p0)"
    and l: "pos + 32 \<le> length bs"
    and a: "open_arc bs pos fs = Inr (es, stbl)"
    and nul: "\<And>x. x < length es \<Longrightarrow> 0 \<in> set (drop (stbl + name_off (es ! x)) bs)"
    and nm: "\<And>x. x < length es \<Longrightarrow> \<exists>name p. read_terminated_string bs (stbl + name_off (es ! x)) = Inr (name, p)
            \<and> (is_dir (es ! x) \<or> p \<le> parent_or_file_off (es ! x))"
    and bd: "\<And>x. x < length es \<Longrightarrow> is_dir (es ! x) \<Longrightarrow> next_entry_or_len (es ! x) \<le> length es"
    and fd: "\<And>x. x < length es \<Longrightarrow> \<not> is_dir (es ! x) \<Longrightarrow>
            parent_or_file_off (es ! x) + next_entry_or_len (es ! x) \<le> length bs"
  note oa = open_arc_nth [OF a]
  have rng: "i < length es" if "i \<in> set [1 ..< next_entry_or_len (es ! 0)]" for i
    using that oa(3) by auto
  have "\<exists>s'. load_top_loop bs es stbl [1 ..< next_entry_or_len (es ! 0)] (stbl, [], []) = Inr s'"
  proof (rule load_top_loop_ok)
    fix x assume "x < length es"
    from nm [OF this]
    show "\<exists>name p. read_terminated_string bs (stbl + name_off (es ! x)) = Inr (name, p)" by blast
  qed (use bd rng in auto)
  then obtain s' where lt: "load_top_loop bs es stbl [1 ..< next_entry_or_len (es ! 0)] (stbl, [], []) = Inr s'"
    ..
  obtain q parsed tree where s': "s' = (q, parsed, tree)" by (cases s')
  from h a lt s' have ok: "\<exists>a. load_from_bin \<lparr>stream_name = nm, stream_bytes = bs\<rparr> pos = Inr a"
    by (simp add: load_from_bin_def Let_def)
  have h': "read_header (bs @ ex) pos = Inr (fs, p0)"
    using read_header_append [OF l] h by simp
  have a': "open_arc (bs @ ex) pos fs = Inr (es, stbl)" by (rule open_arc_append [OF a])
  have view: "same_view (bs @ ex) es bs es stbl"
    unfolding same_view_def
  proof (intro conjI allI impI)
    show "length es = length es" by simp
  next
    fix x assume x: "x < length es"
    show "entry_rel (es ! x) (es ! x)" by (simp add: entry_rel_def)
    show "read_terminated_string (bs @ ex) (stbl + name_off (es ! x))
        = read_terminated_string bs (stbl + name_off (es ! x))"
      by (rule read_terminated_string_append [OF nul [OF x]])
  next
    fix x assume x: "x < length es" and nd: "\<not> is_dir (es ! x)"
    show "read (bs @ ex) (parent_or_file_off (es ! x)) (next_entry_or_len (es ! x))
        = read bs (parent_or_file_off (es ! x)) (next_entry_or_len (es ! x))"
      by (rule read_append [OF fd [OF x nd]])
  next
    fix x name p assume x: "x < length es" and nd: "\<not> is_dir (es ! x)"
      and r: "read_terminated_string bs (stbl + name_off (es ! x)) = Inr (name, p)"
    from nm [OF x] r nd have "p \<le> parent_or_file_off (es ! x)" by auto
    with fd [OF x nd] have "p + next_entry_or_len (es ! x) \<le> length bs" by simp
    then show "read (bs @ ex) p (next_entry_or_len (es ! x)) = read bs p (next_entry_or_len (es ! x))"
      by (rule read_append)
  qed
  have "load_from_bin \<lparr>stream_name = nm, stream_bytes = bs @ ex\<rparr> pos
      = load_from_bin \<lparr>stream_name = nm, stream_bytes = bs\<rparr> pos"
    by (rule load_from_bin_cong [OF h h' a a' view])
  with ok show ?thesis by auto
qed

text \<open>
  Claim C4 as amended. Decoding fails with \<open>AssertionError\<close> when four bytes are there
  and are not the magic; it fails when the stream ends inside the 16 header bytes that are
  unpacked; it fails with \<open>struct.error\<close> when the stream ends inside the entry table.
  A failure is a value without an archive. A conforming stream decodes, and bytes
  appended to it do not change the result.
\<close>

theorem decoder_failures_and_trailing_bytes:
  "(length (take 4 (drop pos1 (stream_bytes s1))) = 4 \<and>
    take 4 (drop pos1 (stream_bytes s1)) \<noteq> U8_FILE_MAGIC \<longrightarrow>
      load_from_bin s1 pos1 = Inl AssertionError) \<and>
   (length (stream_bytes s2) < pos2 + 16 \<longrightarrow> (\<exists>e. load_from_bin s2 pos2 = Inl e)) \<and>
   (read_header (stream_bytes s3) pos3 = Inr (fst_start, p0) \<and> 0 \<le> int pos3 + fst_start \<and>
    (length (stream_bytes s3) < nat (int pos3 + fst_start) + 12 \<or>
     (\<exists>head q. load_entry (stream_bytes s3) (nat (int pos3 + fst_start)) = Inr (head, q) \<and>
        length (stream_bytes s3) < nat (int pos3 + fst_start) + 12 * next_entry_or_len head)) \<longrightarrow>
      load_from_bin s3 pos3 = Inl StructError) \<and>
   (conforming bs pos4 \<longrightarrow>
      (\<exists>a. load_from_bin \<lparr>stream_name = nm, stream_bytes = bs\<rparr> pos4 = Inr a \<and>
           load_from_bin \<lparr>stream_name = nm, stream_bytes = bs @ extra\<rparr> pos4 = Inr a))"
proof (intro conjI impI)
  assume "length (take 4 (drop pos1 (stream_bytes s1))) = 4 \<and>
    take 4 (drop pos1 (stream_bytes s1)) \<noteq> U8_FILE_MAGIC"
  then show "load_from_bin s1 pos1 = Inl AssertionError" by (simp add: magic_mismatch)
next
  assume "length (stream_bytes s2) < pos2 + 16"
  then show "\<exists>e. load_from_bin s2 pos2 = Inl e" by (rule header_cut)
next
  assume h: "read_header (stream_bytes s3) pos3 = Inr (fst_start, p0) \<and> 0 \<le> int pos3 + fst_start \<and>
    (length (stream_bytes s3) < nat (int pos3 + fst_start) + 12 \<or>
     (\<exists>head q. load_entry (stream_bytes s3) (nat (int pos3 + fst_start)) = Inr (head, q) \<and>
        length (stream_bytes s3) < nat (int pos3 + fst_start) + 12 * next_entry_or_len head))"
  show "load_from_bin s3 pos3 = Inl StructError"
    by (rule fst_cut [of s3 pos3 fst_start p0]) (use h in blast)+
next
  assume "conforming bs pos4"
  then show "\<exists>a. load_from_bin \<lparr>stream_name = nm, stream_bytes = bs\<rparr> pos4 = Inr a \<and>
           load_from_bin \<lparr>stream_name = nm, stream_bytes = bs @ extra\<rparr> pos4 = Inr a"
    by (rule conforming_decodes)
qed

lemma course_conforming: "conforming course_bytes 0"
proof -
  have n0: "read_terminated_string course_bytes 68 = Inr ([], 69)"
    unfolding course_bytes_def by (simp add: dec_defs)
  have n1: "read_terminated_string course_bytes 69 = Inr (''point'', 75)"
    unfolding course_bytes_def by (simp add: dec_defs)
  have n2: "read_terminated_string course_bytes 75 = Inr (''point_001.bin'', 89)"
    unfolding course_bytes_def by (simp add: dec_defs)
  have z: "0 \<in> set (drop 68 course_bytes)" "0 \<in> set (drop 69 course_bytes)"
    "0 \<in> set (drop 75 course_bytes)"
    unfolding course_bytes_def by simp_all
  have l: "length course_bytes = 128" unfolding course_bytes_def by simp
  let ?es = "lay_entries course_layout"
  have len: "length ?es = 3" by (simp add: course_layout_def)
  have all: "\<forall>x < length ?es.
      0 \<in> set (drop (68 + name_off (?es ! x)) course_bytes) \<and>
      (case read_terminated_string course_bytes (68 + name_off (?es ! x)) of
         Inl err \<Rightarrow> False
       | Inr (name, p) \<Rightarrow> is_dir (?es ! x) \<or> p \<le> parent_or_file_off (?es ! x)) \<and>
      (if is_dir (?es ! x) then next_entry_or_len (?es ! x) \<le> length ?es
       else parent_or_file_off (?es ! x) + next_entry_or_len (?es ! x) \<le> length course_bytes)"
  proof (intro allI impI)
    fix x assume "x < length ?es"
    with len have "x = 0 \<or> x = 1 \<or> x = 2" by arith
    then show "0 \<in> set (drop (68 + name_off (?es ! x)) course_bytes) \<and>
      (case read_terminated_string course_bytes (68 + name_off (?es ! x)) of
         Inl err \<Rightarrow> False
       | Inr (name, p) \<Rightarrow> is_dir (?es ! x) \<or> p \<le> parent_or_file_off (?es ! x)) \<and>
      (if is_dir (?es ! x) then next_entry_or_len (?es ! x) \<le> length ?es
       else parent_or_file_off (?es ! x) + next_entry_or_len (?es ! x) \<le> length course_bytes)"
    proof (elim disjE)
      assume "x = 0"
      then show ?thesis using z(1) n0 l by (simp add: course_layout_def)
    next
      assume "x = 1"
      then show ?thesis using z(2) n1 l by (simp add: course_layout_def)
    next
      assume "x = 2"
      then show ?thesis using z(3) n2 l by (simp add: course_layout_def)
    qed
  qed
  show ?thesis
    using all l by (auto simp: conforming_def course_read_header course_open_arc)
qed

text \<open>
  Four zero bytes, the empty stream, the scenario's stream cut inside its entry table, and
  the scenario's stream followed by one more byte.
\<close>

theorem decoder_failures_witness:
  "load_from_bin \<lparr>stream_name = ''x'', stream_bytes = [0, 0, 0, 0]\<rparr> 0 = Inl AssertionError \<and>
   (\<exists>e. load_from_bin \<lparr>stream_name = ''x'', stream_bytes = []\<rparr> 0 = Inl e) \<and>
   load_from_bin \<lparr>stream_name = ''x'', stream_bytes = take 40 course_bytes\<rparr> 0 = Inl StructError \<and>
   conforming course_bytes 0 \<and>
   load_from_bin \<lparr>stream_name = ''course.arc'', stream_bytes = course_bytes @ [9]\<rparr> 0
     = load_from_bin \<lparr>stream_name = ''course.arc'', stream_bytes = course_bytes\<rparr> 0"
proof -
  let ?s1 = "\<lparr>stream_name = ''x'', stream_bytes = [0, 0, 0, 0]\<rparr>"
  let ?s2 = "\<lparr>stream_name = ''x'', stream_bytes = []\<rparr>"
  let ?s3 = "\<lparr>stream_name = ''x'', stream_bytes = take 40 course_bytes\<rparr>"
  have w1: "length (take 4 (drop 0 (stream_bytes ?s1))) = 4 \<and>
      take 4 (drop 0 (stream_bytes ?s1)) \<noteq> U8_FILE_MAGIC"
    by (simp add: U8_FILE_MAGIC_def)
  have w2: "length (stream_bytes ?s2) < 0 + 16" by simp
  have h3: "read_header (stream_bytes ?s3) 0 = Inr (32, 32)"
    unfolding course_bytes_def by (simp add: dec_defs)
  have l3: "length (stream_bytes ?s3) = 40" unfolding course_bytes_def by simp
  have w3: "read_header (stream_bytes ?s3) 0 = Inr (32, 32) \<and> 0 \<le> int 0 + 32 \<and>
    (length (stream_bytes ?s3) < nat (int 0 + 32) + 12 \<or>
     (\<exists>head q. load_entry (stream_bytes ?s3) (nat (int 0 + 32)) = Inr (head, q) \<and>
        length (stream_bytes ?s3) < nat (int 0 + 32) + 12 * next_entry_or_len head))"
    using h3 l3 by simp
  note t = decoder_failures_and_trailing_bytes [of 0 ?s1 ?s2 0 ?s3 0 32 32 course_bytes 0
      "''course.arc''" "[9]"]
  from t w1 have c1: "load_from_bin ?s1 0 = Inl AssertionError" by blast
  from t w2 have c2: "\<exists>e. load_from_bin ?s2 0 = Inl e" by blast
  from t w3 have c3: "load_from_bin ?s3 0 = Inl StructError" by blast
  from t course_conforming obtain a where
    "load_from_bin \<lparr>stream_name = ''course.arc'', stream_bytes = course_bytes\<rparr> 0 = Inr a"
    and "load_from_bin \<lparr>stream_name = ''course.arc'', stream_bytes = course_bytes @ [9]\<rparr> 0 = Inr a"
    by blast
  then have c4: "load_from_bin \<lparr>stream_name = ''course.arc'', stream_bytes = course_bytes @ [9]\<rparr> 0
     = load_from_bin \<lparr>stream_name = ''course.arc'', stream_bytes = course_bytes\<rparr> 0"
    by simp
  from c1 c2 c3 c4 course_conforming show ?thesis by blast
qed

end
